theory Spec2Isabelle
  imports Main "HOL-Library.Word" "HOL-Library.Sublist" "HOL-Library.AList"
    "HOL-Library.Monad_Syntax"
begin

section \<open>JavaScript strings\<close>

text \<open>
  A JavaScript string is a sequence of 16-bit UTF-16 code units; a \<open>Uint8Array\<close> is a
  sequence of bytes. String literals of the source are written \<open>js ''...''\<close>.
\<close>

type_synonym code_unit = "16 word"
type_synonym jstring = "code_unit list"
type_synonym byte = "8 word"

definition js :: "string \<Rightarrow> jstring" where
  "js s = map (\<lambda>c. of_nat (of_char c)) s"

text \<open>The errors the modelled code can throw.\<close>

datatype js_error = URIError | SyntaxError | InvalidCharacterError

subsection \<open>\<open>String.prototype.includes\<close>, \<open>split\<close> and \<open>Array.prototype.join\<close>\<close>

fun includes_str :: "'a list \<Rightarrow> 'a list \<Rightarrow> bool" where
  "includes_str [] sub = (sub = [])"
| "includes_str (c # cs) sub = (prefix sub (c # cs) \<or> includes_str cs sub)"

text \<open>
  \<open>split_from sep part rest\<close> scans \<open>rest\<close> from the left; \<open>part\<close> is the text
  since the last separator. A match of the separator closes the part and the scan goes on
  behind the match, as \<open>String.prototype.split\<close> does for a string separator.
\<close>

function split_from :: "'a list \<Rightarrow> 'a list \<Rightarrow> 'a list \<Rightarrow> 'a list list" where
  "split_from sep part [] = [part]"
| "split_from sep part (c # cs) =
     (if sep \<noteq> [] \<and> prefix sep (c # cs)
      then part # split_from sep [] (drop (length sep) (c # cs))
      else split_from sep (part @ [c]) cs)"
  by pat_completeness auto
termination
  by (relation "measure (\<lambda>(sep, part, rest). length rest)") auto

definition split :: "'a list \<Rightarrow> 'a list \<Rightarrow> 'a list list" where
  "split s sep = (if sep = [] then map (\<lambda>c. [c]) s else split_from sep [] s)"

fun join :: "'a list list \<Rightarrow> 'a list \<Rightarrow> 'a list" where
  "join [] sep = []"
| "join [x] sep = x"
| "join (x # y # ys) sep = x @ sep @ join (y # ys) sep"

subsection \<open>\<open>decodeURIComponent\<close>\<close>

text \<open>
  ECMAScript's \<open>Decode\<close> with an empty set of reserved characters: every \<open>%XX\<close> escape
  is decoded; an escape whose octet has the high bit set starts a UTF-8 sequence of
  escapes, which must be the valid encoding of one code point. Everything else throws
  \<open>URIError\<close>.
\<close>

definition hexDigit :: "code_unit \<Rightarrow> nat option" where
  "hexDigit c =
     (if 0x30 \<le> c \<and> c \<le> 0x39 then Some (unat c - 0x30)
      else if 0x41 \<le> c \<and> c \<le> 0x46 then Some (unat c - 0x41 + 10)
      else if 0x61 \<le> c \<and> c \<le> 0x66 then Some (unat c - 0x61 + 10)
      else None)"

fun parseHexOctet :: "jstring \<Rightarrow> (nat \<times> jstring) option" where
  "parseHexOctet (p # h # l # rest) =
     (if p = 0x25 then
        (case hexDigit h of None \<Rightarrow> None
         | Some a \<Rightarrow> (case hexDigit l of None \<Rightarrow> None
             | Some b \<Rightarrow> Some (16 * a + b, rest)))
      else None)"
| "parseHexOctet s = None"

fun continuationOctets :: "nat \<Rightarrow> jstring \<Rightarrow> (nat list \<times> jstring) option" where
  "continuationOctets 0 s = Some ([], s)"
| "continuationOctets (Suc n) s =
     (case parseHexOctet s of None \<Rightarrow> None
      | Some (b, rest) \<Rightarrow>
          (case continuationOctets n rest of None \<Rightarrow> None
           | Some (bs, rest') \<Rightarrow> Some (b # bs, rest')))"

definition leadingOnes :: "nat \<Rightarrow> nat" where
  "leadingOnes b =
     (if b < 0x80 then 0 else if b < 0xC0 then 1 else if b < 0xE0 then 2
      else if b < 0xF0 then 3 else if b < 0xF8 then 4 else 5)"

definition isContinuation :: "nat \<Rightarrow> bool" where
  "isContinuation b = (0x80 \<le> b \<and> b < 0xC0)"

text \<open>
  The code point of a multi-octet UTF-8 sequence, if the sequence is valid: continuation
  octets \<open>10xxxxxx\<close>, shortest form, no surrogate, at most \<open>U+10FFFF\<close>.
\<close>

fun utf8CodePoint :: "nat list \<Rightarrow> nat option" where
  "utf8CodePoint [a, b] =
     (let v = (a - 0xC0) * 64 + (b - 0x80)
      in if isContinuation b \<and> 0x80 \<le> v then Some v else None)"
| "utf8CodePoint [a, b, c] =
     (let v = (a - 0xE0) * 4096 + (b - 0x80) * 64 + (c - 0x80)
      in if isContinuation b \<and> isContinuation c \<and> 0x800 \<le> v
            \<and> \<not> (0xD800 \<le> v \<and> v \<le> 0xDFFF) then Some v else None)"
| "utf8CodePoint [a, b, c, d] =
     (let v = (a - 0xF0) * 262144 + (b - 0x80) * 4096 + (c - 0x80) * 64 + (d - 0x80)
      in if isContinuation b \<and> isContinuation c \<and> isContinuation d
            \<and> 0x10000 \<le> v \<and> v \<le> 0x10FFFF then Some v else None)"
| "utf8CodePoint os = None"

definition UTF16EncodeCodePoint :: "nat \<Rightarrow> jstring" where
  "UTF16EncodeCodePoint v =
     (if v \<le> 0xFFFF then [of_nat v]
      else [of_nat (0xD800 + (v - 0x10000) div 1024), of_nat (0xDC00 + (v - 0x10000) mod 1024)])"

lemma parseHexOctet_length:
  "parseHexOctet s = Some (b, rest) \<Longrightarrow> length rest < length s"
  by (induction s rule: parseHexOctet.induct) (auto split: if_splits option.splits)

lemma continuationOctets_length:
  "continuationOctets n s = Some (bs, rest) \<Longrightarrow> length rest \<le> length s"
proof (induction n arbitrary: s bs rest)
  case 0
  then show ?case by simp
next
  case (Suc n)
  then show ?case
    by (fastforce split: option.splits dest: parseHexOctet_length)
qed

function decodeURIComponent :: "jstring \<Rightarrow> js_error + jstring" where
  "decodeURIComponent [] = Inr []"
| "decodeURIComponent (c # cs) =
     (if c \<noteq> 0x25 then
        (case decodeURIComponent cs of Inl e \<Rightarrow> Inl e | Inr r \<Rightarrow> Inr (c # r))
      else
        (case parseHexOctet (c # cs) of
           None \<Rightarrow> Inl URIError
         | Some (b, rest) \<Rightarrow>
             if leadingOnes b = 0 then
               (case decodeURIComponent rest of Inl e \<Rightarrow> Inl e
                | Inr r \<Rightarrow> Inr (of_nat b # r))
             else if leadingOnes b = 1 \<or> 4 < leadingOnes b then Inl URIError
             else
               (case continuationOctets (leadingOnes b - 1) rest of
                  None \<Rightarrow> Inl URIError
                | Some (os, rest') \<Rightarrow>
                    (case utf8CodePoint (b # os) of
                       None \<Rightarrow> Inl URIError
                     | Some v \<Rightarrow>
                         (case decodeURIComponent rest' of Inl e \<Rightarrow> Inl e
                          | Inr r \<Rightarrow> Inr (UTF16EncodeCodePoint v @ r))))))"
  by pat_completeness auto
termination
proof (relation "measure length")
  show "wf (measure length)" by simp
next
  fix c :: code_unit and cs
  show "(cs, c # cs) \<in> measure length" by simp
next
  fix c :: code_unit and cs x2 x y
  assume "parseHexOctet (c # cs) = Some x2" "(x, y) = x2"
  then show "(y, c # cs) \<in> measure length"
    using parseHexOctet_length [of "c # cs" x y] by simp
next
  fix c :: code_unit and cs x2 x y x2a xa ya x2b
  assume "parseHexOctet (c # cs) = Some x2" "(x, y) = x2"
    "continuationOctets (leadingOnes x - 1) y = Some x2a" "(xa, ya) = x2a"
  then show "(ya, c # cs) \<in> measure length"
    using parseHexOctet_length [of "c # cs" x y]
      continuationOctets_length [of "leadingOnes x - 1" y xa ya] by simp
qed

subsection \<open>\<open>JSON.stringify\<close>\<close>

definition isLeadingSurrogate :: "code_unit \<Rightarrow> bool" where
  "isLeadingSurrogate c = (0xD800 \<le> c \<and> c \<le> 0xDBFF)"

definition isTrailingSurrogate :: "code_unit \<Rightarrow> bool" where
  "isTrailingSurrogate c = (0xDC00 \<le> c \<and> c \<le> 0xDFFF)"

definition hexChar :: "nat \<Rightarrow> code_unit" where
  "hexChar d = (if d < 10 then of_nat (0x30 + d) else of_nat (0x61 + (d - 10)))"

text \<open>\<open>UnicodeEscape\<close>: a backslash, \<open>u\<close> and four lowercase hexadecimal digits.\<close>

definition UnicodeEscape :: "code_unit \<Rightarrow> jstring" where
  "UnicodeEscape c =
     [0x5C, 0x75, hexChar (unat c div 4096), hexChar (unat c div 256 mod 16),
      hexChar (unat c div 16 mod 16), hexChar (unat c mod 16)]"

text \<open>
  What \<open>QuoteJSONString\<close> appends for a code point that is a single code unit: the
  two-character escapes of backspace, tab, line feed, form feed, carriage return, the
  double quote and the backslash; a \<open>\u\<close> escape for the other control characters and
  for a surrogate that stands alone; the code unit itself otherwise.
\<close>

definition quoteCodeUnit :: "code_unit \<Rightarrow> jstring" where
  "quoteCodeUnit c =
     (if c = 0x08 then [0x5C, 0x62]
      else if c = 0x09 then [0x5C, 0x74]
      else if c = 0x0A then [0x5C, 0x6E]
      else if c = 0x0C then [0x5C, 0x66]
      else if c = 0x0D then [0x5C, 0x72]
      else if c = 0x22 then [0x5C, 0x22]
      else if c = 0x5C then [0x5C, 0x5C]
      else if c < 0x20 \<or> isLeadingSurrogate c \<or> isTrailingSurrogate c then UnicodeEscape c
      else [c])"

text \<open>
  The string is read code point by code point: a leading surrogate followed by a trailing
  one is one code point and is copied as the pair.
\<close>

fun quoteCodePoints :: "jstring \<Rightarrow> jstring" where
  "quoteCodePoints [] = []"
| "quoteCodePoints [c] = quoteCodeUnit c"
| "quoteCodePoints (c # d # ds) =
     (if isLeadingSurrogate c \<and> isTrailingSurrogate d then c # d # quoteCodePoints ds
      else quoteCodeUnit c @ quoteCodePoints (d # ds))"

definition QuoteJSONString :: "jstring \<Rightarrow> jstring" where
  "QuoteJSONString s = 0x22 # quoteCodePoints s @ [0x22]"

text \<open>
  \<open>Number::toString\<close> of an integer: its decimal digits, after a minus sign if it is
  negative. (From \<open>10^21\<close> on JavaScript writes an exponent; pixel sizes are far below.)
\<close>

fun decimalDigits :: "nat \<Rightarrow> jstring" where
  "decimalDigits n =
     (if n < 10 then [of_nat (0x30 + n)]
      else decimalDigits (n div 10) @ [of_nat (0x30 + n mod 10)])"

declare decimalDigits.simps [simp del]

definition NumberToString :: "int \<Rightarrow> jstring" where
  "NumberToString i = (if i < 0 then 0x2D # decimalDigits (nat (- i)) else decimalDigits (nat i))"

text \<open>
  The edit request, as the source documents its type:
  \<^verbatim>\<open>{ resize: { height?: number; width?: number; fit: 'cover' | 'contain' | 'fill' | 'inside' | 'outside' } }\<close>.
  The numbers are integers (pixel sizes); an absent property is \<open>None\<close>.
\<close>

datatype fit_mode = Cover | Contain | Fill | Inside | Outside

record resize_options =
  height :: "int option"
  width :: "int option"
  fit :: fit_mode

record image_edit_request =
  resize :: resize_options

record image_request =
  bucket :: jstring
  key :: jstring
  edits :: image_edit_request

fun fitString :: "fit_mode \<Rightarrow> jstring" where
  "fitString Cover = js ''cover''"
| "fitString Contain = js ''contain''"
| "fitString Fill = js ''fill''"
| "fitString Inside = js ''inside''"
| "fitString Outside = js ''outside''"

text \<open>
  \<open>JSON.stringify\<close> without a gap writes an object as its members \<open>"name":value\<close>,
  in the order of the properties, separated by commas and enclosed in braces; a property
  that is absent is left out.
\<close>

definition member_json :: "string \<Rightarrow> jstring \<Rightarrow> jstring" where
  "member_json name v = QuoteJSONString (js name) @ js '':'' @ v"

definition object_json :: "jstring list \<Rightarrow> jstring" where
  "object_json members = js ''{'' @ join members (js '','') @ js ''}''"

definition stringify_resize :: "resize_options \<Rightarrow> jstring" where
  "stringify_resize r =
     object_json
       ((case height r of None \<Rightarrow> [] | Some h \<Rightarrow> [member_json ''height'' (NumberToString h)])
        @ (case width r of None \<Rightarrow> [] | Some w \<Rightarrow> [member_json ''width'' (NumberToString w)])
        @ [member_json ''fit'' (QuoteJSONString (fitString (fit r)))])"

definition stringify_edits :: "image_edit_request \<Rightarrow> jstring" where
  "stringify_edits e = object_json [member_json ''resize'' (stringify_resize (resize e))]"

definition JSON_stringify :: "image_request \<Rightarrow> jstring" where
  "JSON_stringify r =
     object_json
       [member_json ''bucket'' (QuoteJSONString (bucket r)),
        member_json ''key'' (QuoteJSONString (key r)),
        member_json ''edits'' (stringify_edits (edits r))]"

subsection \<open>\<open>TextEncoder.encode\<close>\<close>

text \<open>The octets of the UTF-8 encoding of a scalar value.\<close>

definition utf8Octets :: "nat \<Rightarrow> nat list" where
  "utf8Octets v =
     (if v < 0x80 then [v]
      else if v < 0x800 then [0xC0 + v div 64, 0x80 + v mod 64]
      else if v < 0x10000 then [0xE0 + v div 4096, 0x80 + v div 64 mod 64, 0x80 + v mod 64]
      else [0xF0 + v div 262144, 0x80 + v div 4096 mod 64, 0x80 + v div 64 mod 64,
            0x80 + v mod 64])"

definition utf8Bytes :: "nat \<Rightarrow> byte list" where
  "utf8Bytes v = map of_nat (utf8Octets v)"

definition pairCodePoint :: "code_unit \<Rightarrow> code_unit \<Rightarrow> nat" where
  "pairCodePoint c d = 0x10000 + (unat c - 0xD800) * 1024 + (unat d - 0xDC00)"

text \<open>
  The string is converted to scalar values first: a surrogate pair is one scalar value, a
  surrogate that stands alone becomes \<open>U+FFFD\<close>. Each scalar value is written in UTF-8.
\<close>

fun TextEncoder_encode :: "jstring \<Rightarrow> byte list" where
  "TextEncoder_encode [] = []"
| "TextEncoder_encode [c] =
     (if isLeadingSurrogate c \<or> isTrailingSurrogate c then utf8Bytes 0xFFFD
      else utf8Bytes (unat c))"
| "TextEncoder_encode (c # d # ds) =
     (if isLeadingSurrogate c \<and> isTrailingSurrogate d
      then utf8Bytes (pairCodePoint c d) @ TextEncoder_encode ds
      else if isLeadingSurrogate c \<or> isTrailingSurrogate c
      then utf8Bytes 0xFFFD @ TextEncoder_encode (d # ds)
      else utf8Bytes (unat c) @ TextEncoder_encode (d # ds))"

subsection \<open>\<open>base64FromByteArray\<close>\<close>

text \<open>
  Modelled from the spec: \<open>base64FromByteArray\<close> is imported from \<open>./base64\<close>, which
  is not among the sources; the spec says that the bytes are base64-encoded. This is the
  standard encoding: three bytes make four characters of the alphabet, and a last group of
  one or two bytes is padded with \<open>=\<close>.
\<close>

definition base64Alphabet :: jstring where
  "base64Alphabet = js ''ABCDEFGHIJKLMNOPQRSTUVWXYZabcdefghijklmnopqrstuvwxyz0123456789+/''"

definition base64Char :: "nat \<Rightarrow> code_unit" where
  "base64Char i = base64Alphabet ! (i mod 64)"

fun base64FromByteArray :: "byte list \<Rightarrow> jstring" where
  "base64FromByteArray [] = []"
| "base64FromByteArray [a] =
     [base64Char (unat a div 4), base64Char (unat a mod 4 * 16), 0x3D, 0x3D]"
| "base64FromByteArray [a, b] =
     [base64Char (unat a div 4), base64Char (unat a mod 4 * 16 + unat b div 16),
      base64Char (unat b mod 16 * 4), 0x3D]"
| "base64FromByteArray (a # b # c # rest) =
     [base64Char (unat a div 4), base64Char (unat a mod 4 * 16 + unat b div 16),
      base64Char (unat b mod 16 * 4 + unat c div 64), base64Char (unat c mod 64)]
     @ base64FromByteArray rest"

section \<open>The resized URL\<close>

definition cloudfrontHostname :: jstring where
  "cloudfrontHostname = js ''https://d2obrjcl8a4u8e.cloudfront.net''"

definition s3Hostname :: jstring where
  "s3Hostname = js ''ntmg-media.s3.us-west-1.amazonaws.com''"

definition s3BucketName :: jstring where
  "s3BucketName = js ''ntmg-media''"

text \<open>
  \<open>parts.map((pathPart) => decodeURIComponent(pathPart))\<close>: the first segment that does
  not decode throws, and the exception leaves \<open>getResizedUrl\<close>.
\<close>

fun decodeSegments :: "jstring list \<Rightarrow> js_error + jstring list" where
  "decodeSegments [] = Inr []"
| "decodeSegments (p # ps) =
     (case decodeURIComponent p of Inl e \<Rightarrow> Inl e
      | Inr d \<Rightarrow> (case decodeSegments ps of Inl e \<Rightarrow> Inl e | Inr ds \<Rightarrow> Inr (d # ds)))"

text \<open>
  \<open>getResizedUrl\<close> (lines 343-371): the three guards, then the key from the second part
  of the split, the request object, its JSON text, the UTF-8 bytes of the text and their
  base64 encoding behind the CDN host.
\<close>

definition getResizedUrl :: "jstring \<Rightarrow> image_edit_request \<Rightarrow> js_error + jstring" where
  "getResizedUrl originalImageUrl imageEditRequest =
     (if originalImageUrl = [] then Inr []
      else if \<not> includes_str originalImageUrl s3Hostname then Inr originalImageUrl
      else
        (let parts = split originalImageUrl (s3Hostname @ js ''/'')
         in if length parts \<noteq> 2 then Inr originalImageUrl
            else
              (case decodeSegments (split (parts ! 1) (js ''/'')) of
                 Inl e \<Rightarrow> Inl e
               | Inr segments \<Rightarrow>
                   Inr (cloudfrontHostname @ js ''/'' @
                     base64FromByteArray (TextEncoder_encode (JSON_stringify
                       \<lparr>bucket = s3BucketName, key = join segments (js ''/''),
                        edits = imageEditRequest\<rparr>))))))"

section \<open>Reading a resized URL back\<close>

text \<open>
  The claim about \<open>getResizedUrl\<close> speaks of decoding its result: base64-decoding, reading
  the bytes as UTF-8 and parsing the text as JSON. These are the decoders.
\<close>

subsection \<open>Base64 decoding\<close>

text \<open>
  Four characters of the alphabet make three bytes; a last group may end in one or two
  \<open>=\<close>, and then its unused bits must be zero.
\<close>

definition base64Index :: "code_unit \<Rightarrow> nat option" where
  "base64Index c =
     (if 0x41 \<le> c \<and> c \<le> 0x5A then Some (unat c - 0x41)
      else if 0x61 \<le> c \<and> c \<le> 0x7A then Some (unat c - 0x61 + 26)
      else if 0x30 \<le> c \<and> c \<le> 0x39 then Some (unat c - 0x30 + 52)
      else if c = 0x2B then Some 62
      else if c = 0x2F then Some 63
      else None)"

fun base64ToByteArray :: "jstring \<Rightarrow> byte list option" where
  "base64ToByteArray [] = Some []"
| "base64ToByteArray (a # b # c # d # rest) =
     (case (base64Index a, base64Index b) of
        (Some s0, Some s1) \<Rightarrow>
          if rest = [] \<and> c = 0x3D \<and> d = 0x3D then
            (if s1 mod 16 = 0 then Some [of_nat (s0 * 4 + s1 div 16)] else None)
          else
            (case base64Index c of
               None \<Rightarrow> None
             | Some s2 \<Rightarrow>
                 if rest = [] \<and> d = 0x3D then
                   (if s2 mod 4 = 0
                    then Some [of_nat (s0 * 4 + s1 div 16), of_nat (s1 mod 16 * 16 + s2 div 4)]
                    else None)
                 else
                   (case base64Index d of
                      None \<Rightarrow> None
                    | Some s3 \<Rightarrow>
                        (case base64ToByteArray rest of
                           None \<Rightarrow> None
                         | Some bytes \<Rightarrow>
                             Some (of_nat (s0 * 4 + s1 div 16)
                               # of_nat (s1 mod 16 * 16 + s2 div 4)
                               # of_nat (s2 mod 4 * 64 + s3) # bytes))))
      | _ \<Rightarrow> None)"
| "base64ToByteArray s = None"

subsection \<open>UTF-8 decoding\<close>

text \<open>
  \<open>TextDecoder\<close> in fatal mode: a byte sequence that is not valid UTF-8 has no decoding.
  A string is well-formed when every surrogate in it is part of a pair.
\<close>

function TextDecoder_decode :: "byte list \<Rightarrow> jstring option" where
  "TextDecoder_decode [] = Some []"
| "TextDecoder_decode (a # bs) =
     (if leadingOnes (unat a) = 0 then
        (case TextDecoder_decode bs of None \<Rightarrow> None | Some s \<Rightarrow> Some (of_nat (unat a) # s))
      else if leadingOnes (unat a) = 1 \<or> 4 < leadingOnes (unat a)
              \<or> length bs < leadingOnes (unat a) - 1 then None
      else
        (case utf8CodePoint (map unat (a # take (leadingOnes (unat a) - 1) bs)) of
           None \<Rightarrow> None
         | Some v \<Rightarrow>
             (case TextDecoder_decode (drop (leadingOnes (unat a) - 1) bs) of
                None \<Rightarrow> None
              | Some s \<Rightarrow> Some (UTF16EncodeCodePoint v @ s))))"
  by pat_completeness auto
termination
  by (relation "measure length") auto

fun wellFormedUTF16 :: "jstring \<Rightarrow> bool" where
  "wellFormedUTF16 [] = True"
| "wellFormedUTF16 [c] = (\<not> isLeadingSurrogate c \<and> \<not> isTrailingSurrogate c)"
| "wellFormedUTF16 (c # d # ds) =
     (if isLeadingSurrogate c \<and> isTrailingSurrogate d then wellFormedUTF16 ds
      else \<not> isLeadingSurrogate c \<and> \<not> isTrailingSurrogate c \<and> wellFormedUTF16 (d # ds))"

definition isSurrogate :: "code_unit \<Rightarrow> bool" where
  "isSurrogate c = (isLeadingSurrogate c \<or> isTrailingSurrogate c)"

subsection \<open>JSON parsing\<close>

text \<open>
  A parser for the JSON texts of image requests: string literals with their escapes,
  decimal integers, and the objects of an image request with their members in the order
  \<open>JSON.stringify\<close> writes them.
\<close>

definition unescapeChar :: "code_unit \<Rightarrow> code_unit option" where
  "unescapeChar e =
     (if e = 0x62 then Some 0x08
      else if e = 0x74 then Some 0x09
      else if e = 0x6E then Some 0x0A
      else if e = 0x66 then Some 0x0C
      else if e = 0x72 then Some 0x0D
      else if e = 0x22 then Some 0x22
      else if e = 0x5C then Some 0x5C
      else if e = 0x2F then Some 0x2F
      else None)"

fun parseStringChars :: "jstring \<Rightarrow> (jstring \<times> jstring) option" where
  "parseStringChars [] = None"
| "parseStringChars (c # cs) =
     (if c = 0x22 then Some ([], cs)
      else if c = 0x5C then
        (case cs of
           [] \<Rightarrow> None
         | e # es \<Rightarrow>
             if e = 0x75 then
               (case es of
                  h1 # h2 # h3 # h4 # rest \<Rightarrow>
                    (case (hexDigit h1, hexDigit h2, hexDigit h3, hexDigit h4) of
                       (Some d1, Some d2, Some d3, Some d4) \<Rightarrow>
                         (case parseStringChars rest of
                            None \<Rightarrow> None
                          | Some (s, r) \<Rightarrow>
                              Some (of_nat (d1 * 4096 + d2 * 256 + d3 * 16 + d4) # s, r))
                     | _ \<Rightarrow> None)
                | _ \<Rightarrow> None)
             else
               (case unescapeChar e of
                  None \<Rightarrow> None
                | Some ch \<Rightarrow>
                    (case parseStringChars es of
                       None \<Rightarrow> None
                     | Some (s, r) \<Rightarrow> Some (ch # s, r))))
      else if c < 0x20 then None
      else
        (case parseStringChars cs of
           None \<Rightarrow> None
         | Some (s, r) \<Rightarrow> Some (c # s, r)))"

definition parseString :: "jstring \<Rightarrow> (jstring \<times> jstring) option" where
  "parseString s =
     (case s of [] \<Rightarrow> None | q # cs \<Rightarrow> if q = 0x22 then parseStringChars cs else None)"

definition isDigit :: "code_unit \<Rightarrow> bool" where
  "isDigit c = (0x30 \<le> c \<and> c \<le> 0x39)"

fun parseDigits :: "nat \<Rightarrow> jstring \<Rightarrow> nat \<times> jstring" where
  "parseDigits acc [] = (acc, [])"
| "parseDigits acc (c # cs) =
     (if isDigit c then parseDigits (acc * 10 + (unat c - 0x30)) cs else (acc, c # cs))"

definition parseNumber :: "jstring \<Rightarrow> (int \<times> jstring) option" where
  "parseNumber s =
     (case s of
        [] \<Rightarrow> None
      | c # cs \<Rightarrow>
          if c = 0x2D then
            (case cs of
               [] \<Rightarrow> None
             | d # ds \<Rightarrow>
                 if isDigit d then (case parseDigits 0 cs of (n, r) \<Rightarrow> Some (- int n, r))
                 else None)
          else if isDigit c then (case parseDigits 0 s of (n, r) \<Rightarrow> Some (int n, r))
          else None)"

definition expect :: "jstring \<Rightarrow> jstring \<Rightarrow> jstring option" where
  "expect lit s = (if prefix lit s then Some (drop (length lit) s) else None)"

definition parseMember :: "string \<Rightarrow> jstring \<Rightarrow> jstring option" where
  "parseMember name s =
     do {
       (k, s1) \<leftarrow> parseString s;
       s2 \<leftarrow> expect (js '':'') s1;
       if k = js name then Some s2 else None
     }"

definition fitOfString :: "jstring \<Rightarrow> fit_mode option" where
  "fitOfString f =
     (if f = js ''cover'' then Some Cover
      else if f = js ''contain'' then Some Contain
      else if f = js ''fill'' then Some Fill
      else if f = js ''inside'' then Some Inside
      else if f = js ''outside'' then Some Outside
      else None)"

definition parseOptionalNumber :: "string \<Rightarrow> jstring \<Rightarrow> (int option \<times> jstring) option" where
  "parseOptionalNumber name s =
     (case parseMember name s of
        None \<Rightarrow> Some (None, s)
      | Some s1 \<Rightarrow>
          do {
            (n, s2) \<leftarrow> parseNumber s1;
            s3 \<leftarrow> expect (js '','') s2;
            Some (Some n, s3)
          })"

definition parseResize :: "jstring \<Rightarrow> (resize_options \<times> jstring) option" where
  "parseResize s =
     do {
       s1 \<leftarrow> expect (js ''{'') s;
       (h, s2) \<leftarrow> parseOptionalNumber ''height'' s1;
       (w, s3) \<leftarrow> parseOptionalNumber ''width'' s2;
       s4 \<leftarrow> parseMember ''fit'' s3;
       (f, s5) \<leftarrow> parseString s4;
       m \<leftarrow> fitOfString f;
       s6 \<leftarrow> expect (js ''}'') s5;
       Some (\<lparr>height = h, width = w, fit = m\<rparr>, s6)
     }"

definition parseEdits :: "jstring \<Rightarrow> (image_edit_request \<times> jstring) option" where
  "parseEdits s =
     do {
       s1 \<leftarrow> expect (js ''{'') s;
       s2 \<leftarrow> parseMember ''resize'' s1;
       (r, s3) \<leftarrow> parseResize s2;
       s4 \<leftarrow> expect (js ''}'') s3;
       Some (\<lparr>resize = r\<rparr>, s4)
     }"

definition JSON_parse :: "jstring \<Rightarrow> image_request option" where
  "JSON_parse s =
     do {
       s1 \<leftarrow> expect (js ''{'') s;
       s2 \<leftarrow> parseMember ''bucket'' s1;
       (b, s3) \<leftarrow> parseString s2;
       s4 \<leftarrow> expect (js '','') s3;
       s5 \<leftarrow> parseMember ''key'' s4;
       (k, s6) \<leftarrow> parseString s5;
       s7 \<leftarrow> expect (js '','') s6;
       s8 \<leftarrow> parseMember ''edits'' s7;
       (e, s9) \<leftarrow> parseEdits s8;
       s10 \<leftarrow> expect (js ''}'') s9;
       if s10 = [] then Some \<lparr>bucket = b, key = k, edits = e\<rparr> else None
     }"

text \<open>Base64-decoding, then reading the bytes as UTF-8, then parsing the text as JSON.\<close>

definition decodeRequest :: "jstring \<Rightarrow> image_request option" where
  "decodeRequest b64 =
     do {
       bytes \<leftarrow> base64ToByteArray b64;
       text \<leftarrow> TextDecoder_decode bytes;
       JSON_parse text
     }"

section \<open>The user interface\<close>

subsection \<open>Elements\<close>

text \<open>
  An element, as far as \<open>Ui\<close> uses it: the tag name, the class list (an ordered set of
  tokens), the properties assigned to it and the event listeners added to it. The only
  listener of the modelled methods is the arrow function that \<open>fillImage\<close> registers.
\<close>

datatype attr_value = AString jstring | ABoolean bool

datatype listener = MediaReady

record element =
  tagName :: jstring
  classList :: "jstring list"
  properties :: "(jstring \<times> attr_value) list"
  eventListeners :: "(jstring \<times> listener) list"

text \<open>
  The fields of \<open>Ui\<close> that \<open>render\<close>, \<open>toggleStatus\<close> and \<open>fillImage\<close> read or write:
  the flag \<open>optimizeImages\<close>, the wrapper, the background image of the preloader
  (\<open>None\<close> if there is no preloader node), \<open>nodes.imageEl\<close> and the media elements
  appended to the image container, in order.
\<close>

record ui =
  optimizeImages :: bool
  wrapper :: element
  imagePreloader :: "jstring option"
  imageEl :: "element option"
  imageContainer :: "element list"


definition isAsciiWhitespace :: "code_unit \<Rightarrow> bool" where
  "isAsciiWhitespace c = (c = 0x09 \<or> c = 0x0A \<or> c = 0x0C \<or> c = 0x0D \<or> c = 0x20)"

text \<open>
  \<open>DOMTokenList.toggle(token, force)\<close>: an empty token throws \<open>SyntaxError\<close>, a token
  with whitespace throws \<open>InvalidCharacterError\<close>; with \<open>force\<close> true the token is
  added unless present, with \<open>force\<close> false it is removed.
\<close>

definition classList_toggle :: "jstring list \<Rightarrow> jstring \<Rightarrow> bool \<Rightarrow> js_error + jstring list" where
  "classList_toggle tokens token force =
     (if token = [] then Inl SyntaxError
      else if list_ex isAsciiWhitespace token then Inl InvalidCharacterError
      else if token \<in> set tokens then (if force then Inr tokens else Inr (removeAll token tokens))
      else (if force then Inr (tokens @ [token]) else Inr tokens))"

text \<open>\<open>DOMTokenList.add(...tokens)\<close> checks every token before it adds any.\<close>

fun add_tokens :: "jstring list \<Rightarrow> jstring list \<Rightarrow> jstring list" where
  "add_tokens tokens [] = tokens"
| "add_tokens tokens (t # ts) = add_tokens (if t \<in> set tokens then tokens else tokens @ [t]) ts"

definition classList_add :: "jstring list \<Rightarrow> jstring list \<Rightarrow> js_error + jstring list" where
  "classList_add tokens new =
     (if list_ex (\<lambda>t. t = []) new then Inl SyntaxError
      else if list_ex (list_ex isAsciiWhitespace) new then Inl InvalidCharacterError
      else Inr (add_tokens tokens new))"

datatype class_names = ClassArray "jstring list" | ClassName jstring | ClassNull

fun assign_properties :: "element \<Rightarrow> (jstring \<times> attr_value) list \<Rightarrow> element" where
  "assign_properties el [] = el"
| "assign_properties el ((attrName, v) # attributes) =
     assign_properties (el\<lparr>properties := AList.update attrName v (properties el)\<rparr>) attributes"

text \<open>
  \<open>make(tagName, classNames, attributes)\<close> (lines 315-329): each attribute is assigned
  as a property of the new element. \<open>document.createElement\<close> is only called
  with the tag names \<open>div\<close>, \<open>IMG\<close>, \<open>VIDEO\<close> and \<open>AUDIO\<close>, for which it returns a
  new element.
\<close>

definition createElement :: "jstring \<Rightarrow> element" where
  "createElement tag = \<lparr>tagName = tag, classList = [], properties = [], eventListeners = []\<rparr>"

definition make :: "jstring \<Rightarrow> class_names \<Rightarrow> (jstring \<times> attr_value) list \<Rightarrow> js_error + element" where
  "make tag classNames attributes =
     (let el = createElement tag
      in case (case classNames of
                 ClassArray names \<Rightarrow> classList_add (classList el) names
               | ClassName name \<Rightarrow>
                   if name \<noteq> [] then classList_add (classList el) [name] else Inr (classList el)
               | ClassNull \<Rightarrow> Inr (classList el)) of
           Inl e \<Rightarrow> Inl e
         | Inr cl \<Rightarrow> Inr (assign_properties (el\<lparr>classList := cl\<rparr>) attributes))"

definition addEventListener :: "element \<Rightarrow> jstring \<Rightarrow> listener \<Rightarrow> element" where
  "addEventListener el eventName l =
     (if (eventName, l) \<in> set (eventListeners el) then el
      else el\<lparr>eventListeners := eventListeners el @ [(eventName, l)]\<rparr>)"

subsection \<open>The constants of \<open>Ui\<close>\<close>

definition CSS_wrapper :: jstring where
  "CSS_wrapper = js ''image-tool''"

definition CSS_imageEl :: jstring where
  "CSS_imageEl = js ''image-tool__image-picture''"

definition status_EMPTY :: jstring where
  "status_EMPTY = js ''empty''"

definition status_UPLOADING :: jstring where
  "status_UPLOADING = js ''loading''"

definition status_FILLED :: jstring where
  "status_FILLED = js ''filled''"

text \<open>The values of \<open>Ui.status\<close> (lines 88-94), in the order of its properties.\<close>

definition Ui_status :: "jstring list" where
  "Ui_status = [status_EMPTY, status_UPLOADING, status_FILLED]"

definition statusClass :: "jstring \<Rightarrow> jstring" where
  "statusClass v = CSS_wrapper @ js ''--'' @ v"

subsection \<open>\<open>toggleStatus\<close> and \<open>render\<close>\<close>

text \<open>
  \<open>toggleStatus\<close> (lines 287-293): for each status type, the class of its value is
  toggled on the wrapper, with \<open>force\<close> true for the value equal to the argument.
\<close>

fun toggleStatusTypes :: "jstring list \<Rightarrow> jstring \<Rightarrow> jstring list \<Rightarrow> js_error + jstring list" where
  "toggleStatusTypes tokens status [] = Inr tokens"
| "toggleStatusTypes tokens status (v # vs) =
     (case classList_toggle tokens (statusClass v) (status = v) of
        Inl e \<Rightarrow> Inl e
      | Inr tokens' \<Rightarrow> toggleStatusTypes tokens' status vs)"

definition toggleStatus :: "ui \<Rightarrow> jstring \<Rightarrow> js_error + ui" where
  "toggleStatus u status =
     (case toggleStatusTypes (classList (wrapper u)) status Ui_status of
        Inl e \<Rightarrow> Inl e
      | Inr tokens \<Rightarrow> Inr (u\<lparr>wrapper := (wrapper u)\<lparr>classList := tokens\<rparr>\<rparr>))"


text \<open>A sequence of \<open>toggleStatus\<close> calls, stopping at the first exception.\<close>

fun toggleStatus_calls :: "ui \<Rightarrow> jstring list \<Rightarrow> js_error + ui" where
  "toggleStatus_calls u [] = Inr u"
| "toggleStatus_calls u (s # ss) =
     (case toggleStatus u s of Inl e \<Rightarrow> Inl e | Inr u' \<Rightarrow> toggleStatus_calls u' ss)"

text \<open>A status marker is active when its class is on the wrapper.\<close>

definition markerActive :: "ui \<Rightarrow> jstring \<Rightarrow> bool" where
  "markerActive u v = (statusClass v \<in> set (classList (wrapper u)))"

subsection \<open>\<open>fillImage\<close>\<close>

text \<open>
  The \<open>srcset\<close>: for each width a resized URL, followed by a space, the width and
  \<open>w\<close>; the candidates are joined with a comma and a space. An exception of
  \<open>getResizedUrl\<close> leaves the \<open>map\<close>.
\<close>

fun srcSetCandidates :: "jstring \<Rightarrow> int list \<Rightarrow> js_error + jstring list" where
  "srcSetCandidates url [] = Inr []"
| "srcSetCandidates url (w # ws) =
     (case getResizedUrl url \<lparr>resize = \<lparr>height = None, width = Some w, fit = Cover\<rparr>\<rparr> of
        Inl e \<Rightarrow> Inl e
      | Inr resizedUrl \<Rightarrow>
          (case srcSetCandidates url ws of
             Inl e \<Rightarrow> Inl e
           | Inr rest \<Rightarrow> Inr ((resizedUrl @ js '' '' @ NumberToString w @ js ''w'') # rest)))"

definition srcSet :: "jstring \<Rightarrow> js_error + jstring" where
  "srcSet url =
     (case srcSetCandidates url [640, 750, 828, 1080] of
        Inl e \<Rightarrow> Inl e
      | Inr candidates \<Rightarrow> Inr (join candidates (js '', '')))"

text \<open>
  \<open>fillImage\<close> (lines 157-261): the tag from the two tests on the end of the URL, the
  attributes, the event name, the element made by \<open>make\<close>, the listener, and the element
  appended to the image container.
\<close>

definition fillImage :: "ui \<Rightarrow> jstring \<Rightarrow> js_error + ui" where
  "fillImage u url =
     (let tag0 = js ''IMG'';
          tag1 = (if suffix (js ''.mp4'') url then js ''VIDEO'' else tag0);
          tag = (if suffix (js ''.mp3'') url then js ''AUDIO'' else tag1);
          attributes0 = [(js ''src'', AString url)]
      in case (if optimizeImages u
               then (case srcSet url of
                       Inl e \<Rightarrow> Inl e
                     | Inr s \<Rightarrow>
                         Inr (attributes0 @
                           [(js ''srcset'', AString s), (js ''sizes'', AString (js ''100vw''))]))
               else Inr attributes0) of
           Inl e \<Rightarrow> Inl e
         | Inr attributes1 \<Rightarrow>
             (let eventName0 = js ''load'';
                  attributes2 = (if tag = js ''VIDEO''
                    then attributes1 @
                      [(js ''playsinline'', ABoolean True), (js ''controls'', ABoolean True)]
                    else attributes1);
                  eventName1 = (if tag = js ''VIDEO'' then js ''loadeddata'' else eventName0);
                  attributes = (if tag = js ''AUDIO''
                    then attributes2 @ [(js ''controls'', ABoolean True)]
                    else attributes2);
                  eventName = (if tag = js ''AUDIO'' then js ''loadeddata'' else eventName1)
              in case make tag (ClassName CSS_imageEl) attributes of
                   Inl e \<Rightarrow> Inl e
                 | Inr el0 \<Rightarrow>
                     (let el = addEventListener el0 eventName MediaReady
                      in Inr (u\<lparr>imageEl := Some el,
                                imageContainer := imageContainer u @ [el]\<rparr>))))"

text \<open>
  The listener: \<open>toggleStatus(Ui.status.FILLED)\<close>, then the background image of the
  preloader, if there is one, is cleared.
\<close>

definition mediaReady :: "ui \<Rightarrow> js_error + ui" where
  "mediaReady u =
     (case toggleStatus u status_FILLED of
        Inl e \<Rightarrow> Inl e
      | Inr u' \<Rightarrow>
          Inr (case imagePreloader u' of None \<Rightarrow> u' | Some b \<Rightarrow> u'\<lparr>imagePreloader := Some []\<rparr>))"

text \<open>An event of type \<open>eventName\<close> on an element runs its listeners for that type, in order.\<close>

fun runListeners :: "ui \<Rightarrow> (jstring \<times> listener) list \<Rightarrow> jstring \<Rightarrow> js_error + ui" where
  "runListeners u [] eventName = Inr u"
| "runListeners u ((n, MediaReady) # ls) eventName =
     (if n = eventName
      then (case mediaReady u of Inl e \<Rightarrow> Inl e | Inr u' \<Rightarrow> runListeners u' ls eventName)
      else runListeners u ls eventName)"

definition dispatchEvent :: "ui \<Rightarrow> element \<Rightarrow> jstring \<Rightarrow> js_error + ui" where
  "dispatchEvent u el eventName = runListeners u (eventListeners el) eventName"

subsection \<open>The element of \<open>fillImage\<close> in closed form\<close>

text \<open>
  The tag that the two tests of \<open>fillImage\<close> select, and the element it composes from
  the URL and the \<open>srcset\<close> (\<open>None\<close> when \<open>optimizeImages\<close> is off).
\<close>

definition mediaTag :: "jstring \<Rightarrow> jstring" where
  "mediaTag url = (if suffix (js ''.mp3'') url then js ''AUDIO''
     else if suffix (js ''.mp4'') url then js ''VIDEO'' else js ''IMG'')"

definition mediaElement :: "jstring \<Rightarrow> jstring option \<Rightarrow> element" where
  "mediaElement url ss =
     \<lparr>tagName = mediaTag url,
      classList = [CSS_imageEl],
      properties = [(js ''src'', AString url)]
        @ (case ss of None \<Rightarrow> []
           | Some s \<Rightarrow> [(js ''srcset'', AString s), (js ''sizes'', AString (js ''100vw''))])
        @ (if mediaTag url = js ''VIDEO''
           then [(js ''playsinline'', ABoolean True), (js ''controls'', ABoolean True)]
           else if mediaTag url = js ''AUDIO'' then [(js ''controls'', ABoolean True)] else []),
      eventListeners =
        [(if mediaTag url = js ''IMG'' then js ''load'' else js ''loadeddata'', MediaReady)]\<rparr>"

section \<open>The host component of a URL, in the words of the spec\<close>

text \<open>
  The spec speaks of the host of the original URL. The code has no such notion; this
  definition follows the spec: the host is what stands between \<open>://\<close> and the next
  slash, question mark or hash.
\<close>

definition spec_url_host :: "jstring \<Rightarrow> jstring" where
  "spec_url_host url =
     (case split url (js ''://'') of
        scheme # rest # others \<Rightarrow> takeWhile (\<lambda>c. c \<noteq> 0x2F \<and> c \<noteq> 0x3F \<and> c \<noteq> 0x23) rest
      | _ \<Rightarrow> [])"

section \<open>Concrete inputs\<close>

definition ui0 :: ui where
  "ui0 = \<lparr>optimizeImages = False,
     wrapper = \<lparr>tagName = js ''div'', classList = [js ''cdx-block'', js ''image-tool''],
       properties = [], eventListeners = []\<rparr>,
     imagePreloader = Some [], imageEl = None, imageContainer = []\<rparr>"

definition edit640 :: image_edit_request where
  "edit640 = \<lparr>resize = \<lparr>height = None, width = Some 640, fit = Cover\<rparr>\<rparr>"

definition ui1 :: ui where
  "ui1 = ui0\<lparr>optimizeImages := True\<rparr>"


section \<open>Properties\<close>

subsection \<open>Substrings and splitting\<close>

lemma includes_str_iff: "includes_str s sub \<longleftrightarrow> (\<exists>xs ys. s = xs @ sub @ ys)"
proof (induction s)
  case Nil
  then show ?case by auto
next
  case (Cons c cs)
  show ?case
  proof
    assume "includes_str (c # cs) sub"
    then consider "prefix sub (c # cs)" | "includes_str cs sub" by auto
    then show "\<exists>xs ys. c # cs = xs @ sub @ ys"
    proof cases
      case 1
      then obtain ys where "c # cs = sub @ ys" by (auto simp: prefix_def)
      then have "c # cs = [] @ sub @ ys" by simp
      then show ?thesis by blast
    next
      case 2
      then obtain xs ys where "cs = xs @ sub @ ys" using Cons.IH by blast
      then have "c # cs = (c # xs) @ sub @ ys" by simp
      then show ?thesis by blast
    qed
  next
    assume "\<exists>xs ys. c # cs = xs @ sub @ ys"
    then obtain xs ys where eq: "c # cs = xs @ sub @ ys" by blast
    show "includes_str (c # cs) sub"
    proof (cases xs)
      case Nil
      with eq have "prefix sub (c # cs)" by (simp add: prefix_def)
      then show ?thesis by simp
    next
      case (Cons x xs')
      with eq have "cs = xs' @ sub @ ys" by simp
      then have "includes_str cs sub" using Cons.IH by blast
      then show ?thesis by simp
    qed
  qed
qed

lemma split_from_nonempty: "split_from sep part s \<noteq> []"
  by (induction sep part s rule: split_from.induct) auto

lemma join_Cons: "ps \<noteq> [] \<Longrightarrow> join (p # ps) sep = p @ sep @ join ps sep"
  by (cases ps) simp_all

lemma join_split_from: "sep \<noteq> [] \<Longrightarrow> join (split_from sep part s) sep = part @ s"
proof (induction sep part s rule: split_from.induct)
  case (1 sep part)
  then show ?case by simp
next
  case (2 sep part c cs)
  show ?case
  proof (cases "prefix sep (c # cs)")
    case True
    then have "sep @ drop (length sep) (c # cs) = c # cs"
      by (metis append_eq_conv_conj prefix_def)
    then show ?thesis
      using 2 True by (simp add: join_Cons split_from_nonempty)
  next
    case False
    then show ?thesis using 2 by simp
  qed
qed

lemma join_split: "join (split s sep) sep = s"
proof (cases "sep = []")
  case True
  have "join (map (\<lambda>c. [c]) s) [] = s"
  proof (induction s)
    case Nil
    then show ?case by simp
  next
    case (Cons a s)
    then show ?case by (cases s) simp_all
  qed
  then show ?thesis by (simp add: split_def True)
next
  case False
  then show ?thesis by (simp add: split_def join_split_from)
qed

lemma split_two_parts:
  assumes "length (split s sep) = 2"
  shows "s = split s sep ! 0 @ sep @ split s sep ! 1"
proof -
  from assms obtain a b where ab: "split s sep = [a, b]"
    by (cases "split s sep"; cases "tl (split s sep)") auto
  have "join [a, b] sep = s" using join_split [of s sep] by (simp add: ab)
  then show ?thesis by (simp add: ab)
qed

subsection \<open>The guards of \<open>getResizedUrl\<close>\<close>

text \<open>
  Claim C6: for every edit request, \<open>getResizedUrl\<close> applied to the empty string returns
  the empty string.
\<close>

theorem getResizedUrl_empty: "getResizedUrl (js '''') imageEditRequest = Inr (js '''')"
  by (simp add: getResizedUrl_def js_def)

text \<open>
  Claim C5: \<open>getResizedUrl\<close> returns the original URL unchanged in both passthrough
  cases: for a non-empty URL that does not contain the storage host as a substring, and for
  a URL whose split on the storage host followed by a slash does not yield exactly two
  parts.
\<close>

theorem getResizedUrl_passthrough:
  assumes "originalImageUrl \<noteq> []"
    and "(\<nexists>xs ys. originalImageUrl = xs @ s3Hostname @ ys)
         \<or> length (split originalImageUrl (s3Hostname @ js ''/'')) \<noteq> 2"
  shows "getResizedUrl originalImageUrl imageEditRequest = Inr originalImageUrl"
  using assms by (auto simp: getResizedUrl_def includes_str_iff Let_def)

theorem getResizedUrl_passthrough_witness:
  "getResizedUrl (js ''https://example.com/a.png'') edit640 = Inr (js ''https://example.com/a.png'')
   \<and> length (split (js ''x/ntmg-media.s3.us-west-1.amazonaws.com/a/ntmg-media.s3.us-west-1.amazonaws.com/b'')
         (s3Hostname @ js ''/'')) = 3
   \<and> getResizedUrl (js ''x/ntmg-media.s3.us-west-1.amazonaws.com/a/ntmg-media.s3.us-west-1.amazonaws.com/b'') edit640
       = Inr (js ''x/ntmg-media.s3.us-west-1.amazonaws.com/a/ntmg-media.s3.us-west-1.amazonaws.com/b'')"
proof -
  have a: "\<not> includes_str (js ''https://example.com/a.png'') s3Hostname"
    by (simp add: js_def s3Hostname_def)
  have b: "length (split (js ''x/ntmg-media.s3.us-west-1.amazonaws.com/a/ntmg-media.s3.us-west-1.amazonaws.com/b'')
         (s3Hostname @ js ''/'')) = 3"
    by (simp add: js_def s3Hostname_def split_def)
  have n: "js ''https://example.com/a.png'' \<noteq> []"
    "js ''x/ntmg-media.s3.us-west-1.amazonaws.com/a/ntmg-media.s3.us-west-1.amazonaws.com/b'' \<noteq> []"
    by (simp_all add: js_def)
  show ?thesis
    using getResizedUrl_passthrough [OF n(1), of edit640]
      getResizedUrl_passthrough [OF n(2), of edit640] a b
    by (simp add: includes_str_iff)
qed

text \<open>
  Claim C4 says that a URL is rewritten only when its host component is the storage host.
  The code looks for the storage host anywhere in the string: the URL below has the host
  \<open>example.com\<close> and the storage host in its path, and it is rewritten.
\<close>

theorem getResizedUrl_host_in_path_counterexample:
  "spec_url_host (js ''https://example.com/ntmg-media.s3.us-west-1.amazonaws.com/a.png'')
     = js ''example.com''
   \<and> js ''example.com'' \<noteq> s3Hostname
   \<and> getResizedUrl (js ''https://example.com/ntmg-media.s3.us-west-1.amazonaws.com/a.png'') edit640
     = Inr (js ''https://d2obrjcl8a4u8e.cloudfront.net/eyJidWNrZXQiOiJudG1nLW1lZGlhIiwia2V5IjoiYS5wbmciLCJlZGl0cyI6eyJyZXNpemUiOnsid2lkdGgiOjY0MCwiZml0IjoiY292ZXIifX19'')"
  by (simp add: spec_url_host_def getResizedUrl_def split_def js_def s3Hostname_def
      edit640_def JSON_stringify_def object_json_def member_json_def stringify_edits_def
      stringify_resize_def QuoteJSONString_def quoteCodeUnit_def isLeadingSurrogate_def
      isTrailingSurrogate_def NumberToString_def decimalDigits.simps s3BucketName_def
      cloudfrontHostname_def utf8Bytes_def utf8Octets_def base64Char_def base64Alphabet_def)

lemma getResizedUrl_without_storage_substring:
  assumes "\<nexists>pre path. originalImageUrl = pre @ s3Hostname @ js ''/'' @ path"
  shows "getResizedUrl originalImageUrl imageEditRequest = Inr originalImageUrl"
proof (cases "length (split originalImageUrl (s3Hostname @ js ''/'')) = 2")
  case True
  then have "originalImageUrl = split originalImageUrl (s3Hostname @ js ''/'') ! 0
      @ s3Hostname @ js ''/'' @ split originalImageUrl (s3Hostname @ js ''/'') ! 1"
    using split_two_parts [OF True] by simp
  with assms show ?thesis by blast
next
  case False
  then show ?thesis by (simp add: getResizedUrl_def Let_def)
qed

text \<open>
  Claim C3 says that \<open>getResizedUrl\<close> raises no error and passes every malformed input
  through. The code has no guard around \<open>decodeURIComponent\<close>: on a storage URL with a
  malformed percent-encoding in its path, here a lone percent sign, the \<open>URIError\<close>
  leaves the function.
\<close>

theorem getResizedUrl_malformed_escape_throws:
  "getResizedUrl (js ''https://ntmg-media.s3.us-west-1.amazonaws.com/100%.png'') imageEditRequest
     = Inl URIError"
  by (simp add: getResizedUrl_def js_def s3Hostname_def split_def hexDigit_def)

lemma getResizedUrl_throws_for_every_edit:
  "getResizedUrl url e = Inl x \<Longrightarrow> getResizedUrl url e' = Inl x"
  by (auto simp: getResizedUrl_def Let_def split: if_splits sum.splits)

subsection \<open>Status markers\<close>

lemma statusClass_values:
  "statusClass status_EMPTY = js ''image-tool--empty''"
  "statusClass status_UPLOADING = js ''image-tool--loading''"
  "statusClass status_FILLED = js ''image-tool--filled''"
  by (simp_all add: statusClass_def CSS_wrapper_def status_EMPTY_def status_UPLOADING_def
      status_FILLED_def js_def)

lemma statusClass_valid:
  "v \<in> set Ui_status \<Longrightarrow> statusClass v \<noteq> [] \<and> \<not> list_ex isAsciiWhitespace (statusClass v)"
  by (auto simp: Ui_status_def statusClass_values js_def isAsciiWhitespace_def)

lemma statusClass_distinct:
  "statusClass status_EMPTY \<noteq> statusClass status_UPLOADING"
  "statusClass status_EMPTY \<noteq> statusClass status_FILLED"
  "statusClass status_UPLOADING \<noteq> statusClass status_FILLED"
  by (simp_all add: statusClass_values js_def)

lemma status_distinct:
  "status_EMPTY \<noteq> status_UPLOADING" "status_EMPTY \<noteq> status_FILLED"
  "status_UPLOADING \<noteq> status_FILLED"
  by (simp_all add: status_EMPTY_def status_UPLOADING_def status_FILLED_def js_def)

lemma classList_toggle_status:
  assumes "v \<in> set Ui_status"
  shows "\<exists>tokens'. classList_toggle tokens (statusClass v) force = Inr tokens'
    \<and> set tokens' = (if force then insert (statusClass v) (set tokens)
                       else set tokens - {statusClass v})"
  using statusClass_valid [OF assms] by (auto simp: classList_toggle_def)

lemma toggleStatusTypes_result:
  "\<exists>tokens'. toggleStatusTypes tokens s Ui_status = Inr tokens'
     \<and> (\<forall>v\<in>set Ui_status. statusClass v \<in> set tokens' \<longleftrightarrow> s = v)"
proof -
  have m: "status_EMPTY \<in> set Ui_status" "status_UPLOADING \<in> set Ui_status"
    "status_FILLED \<in> set Ui_status" by (simp_all add: Ui_status_def)
  obtain t1 where t1: "classList_toggle tokens (statusClass status_EMPTY) (s = status_EMPTY) = Inr t1"
    "set t1 = (if s = status_EMPTY then insert (statusClass status_EMPTY) (set tokens)
               else set tokens - {statusClass status_EMPTY})"
    using classList_toggle_status [OF m(1)] by blast
  obtain t2 where t2: "classList_toggle t1 (statusClass status_UPLOADING) (s = status_UPLOADING) = Inr t2"
    "set t2 = (if s = status_UPLOADING then insert (statusClass status_UPLOADING) (set t1)
               else set t1 - {statusClass status_UPLOADING})"
    using classList_toggle_status [OF m(2)] by blast
  obtain t3 where t3: "classList_toggle t2 (statusClass status_FILLED) (s = status_FILLED) = Inr t3"
    "set t3 = (if s = status_FILLED then insert (statusClass status_FILLED) (set t2)
               else set t2 - {statusClass status_FILLED})"
    using classList_toggle_status [OF m(3)] by blast
  have run: "toggleStatusTypes tokens s Ui_status = Inr t3"
    by (simp add: Ui_status_def t1(1) t2(1) t3(1))
  have "\<forall>v\<in>set Ui_status. statusClass v \<in> set t3 \<longleftrightarrow> s = v"
    using statusClass_distinct status_distinct
    by (auto simp: Ui_status_def t1(2) t2(2) t3(2) split: if_splits)
  with run show ?thesis by blast
qed

lemma toggleStatus_result:
  "\<exists>u'. toggleStatus u s = Inr u'
     \<and> (\<forall>v\<in>set Ui_status. markerActive u' v \<longleftrightarrow> s = v)
     \<and> u' = u\<lparr>wrapper := (wrapper u)\<lparr>classList := classList (wrapper u')\<rparr>\<rparr>"
proof -
  obtain t where "toggleStatusTypes (classList (wrapper u)) s Ui_status = Inr t"
    "\<forall>v\<in>set Ui_status. statusClass v \<in> set t \<longleftrightarrow> s = v"
    using toggleStatusTypes_result by blast
  then show ?thesis by (simp add: toggleStatus_def markerActive_def)
qed

lemma active_markers:
  assumes "\<forall>v\<in>set Ui_status. markerActive u v \<longleftrightarrow> s = v"
  shows "filter (markerActive u) Ui_status = (if s \<in> set Ui_status then [s] else [])"
  using assms status_distinct by (auto simp: Ui_status_def)

lemma toggleStatus_calls_append:
  "toggleStatus_calls u (ss @ [s]) =
     (case toggleStatus_calls u ss of Inl e \<Rightarrow> Inl e | Inr u' \<Rightarrow> toggleStatus u' s)"
  by (induction ss arbitrary: u) (auto split: sum.splits)

lemma toggleStatus_calls_total: "\<exists>u'. toggleStatus_calls u ss = Inr u'"
proof (induction ss arbitrary: u)
  case Nil
  then show ?case by simp
next
  case (Cons s ss)
  obtain u1 where "toggleStatus u s = Inr u1" using toggleStatus_result by blast
  then show ?case using Cons.IH [of u1] by simp
qed

text \<open>
  Claim C2: for every sequence of \<open>toggleStatus\<close> calls with arguments from the three
  status values, after each call exactly one of the three status markers is on the
  wrapper, the one of the most recent argument. The sequence \<open>ss @ [s]\<close> is any
  non-empty sequence of calls, so the statement holds after each call.
\<close>

theorem toggleStatus_calls_exactly_one:
  assumes "set ss \<subseteq> set Ui_status" and "s \<in> set Ui_status"
  shows "\<exists>u'. toggleStatus_calls u (ss @ [s]) = Inr u'
           \<and> filter (markerActive u') Ui_status = [s]
           \<and> (\<forall>v\<in>set Ui_status. markerActive u' v \<longleftrightarrow> v = s)"
proof -
  obtain u1 where u1: "toggleStatus_calls u ss = Inr u1"
    using toggleStatus_calls_total by blast
  obtain u' where u': "toggleStatus u1 s = Inr u'"
    "\<forall>v\<in>set Ui_status. markerActive u' v \<longleftrightarrow> s = v"
    using toggleStatus_result by blast
  have "toggleStatus_calls u (ss @ [s]) = Inr u'"
    by (simp add: toggleStatus_calls_append u1 u'(1))
  moreover have "filter (markerActive u') Ui_status = [s]"
    using active_markers [OF u'(2)] assms(2) by simp
  ultimately show ?thesis using u'(2) by auto
qed

theorem toggleStatus_calls_exactly_one_witness:
  "set [status_EMPTY, status_FILLED, status_FILLED] \<subseteq> set Ui_status
   \<and> status_UPLOADING \<in> set Ui_status
   \<and> (\<exists>u'. toggleStatus_calls ui0 ([status_EMPTY, status_FILLED, status_FILLED] @ [status_UPLOADING]) = Inr u'
         \<and> filter (markerActive u') Ui_status = [status_UPLOADING])"
proof -
  have h: "set [status_EMPTY, status_FILLED, status_FILLED] \<subseteq> set Ui_status"
    "status_UPLOADING \<in> set Ui_status"
    by (simp_all add: Ui_status_def)
  show ?thesis
    using h toggleStatus_calls_exactly_one [OF h, of ui0] by blast
qed

text \<open>
  Claim C9: for every string that is none of the three status values, \<open>toggleStatus\<close>
  removes all three status markers from the wrapper and does not throw.
\<close>

theorem toggleStatus_unknown_status:
  assumes "s \<notin> set Ui_status"
  shows "\<exists>u'. toggleStatus u s = Inr u'
           \<and> filter (markerActive u') Ui_status = []
           \<and> \<not> markerActive u' status_EMPTY \<and> \<not> markerActive u' status_UPLOADING
           \<and> \<not> markerActive u' status_FILLED"
proof -
  obtain u' where u': "toggleStatus u s = Inr u'"
    "\<forall>v\<in>set Ui_status. markerActive u' v \<longleftrightarrow> s = v"
    using toggleStatus_result by blast
  have "filter (markerActive u') Ui_status = []"
    using active_markers [OF u'(2)] assms by simp
  moreover have "\<not> markerActive u' status_EMPTY \<and> \<not> markerActive u' status_UPLOADING
           \<and> \<not> markerActive u' status_FILLED"
    using u'(2) assms by (auto simp: Ui_status_def)
  ultimately show ?thesis using u'(1) by blast
qed

theorem toggleStatus_unknown_status_witness:
  "js ''done'' \<notin> set Ui_status
   \<and> (\<exists>u'. toggleStatus (ui0\<lparr>wrapper := (wrapper ui0)\<lparr>classList := [js ''image-tool--filled'']\<rparr>\<rparr>) (js ''done'') = Inr u'
         \<and> filter (markerActive u') Ui_status = [])"
proof -
  have h: "js ''done'' \<notin> set Ui_status"
    by (simp add: Ui_status_def status_EMPTY_def status_UPLOADING_def status_FILLED_def js_def)
  show ?thesis
    using h toggleStatus_unknown_status [OF h] by blast
qed



subsection \<open>The media element\<close>

lemma CSS_imageEl_valid: "CSS_imageEl \<noteq> [] \<and> \<not> list_ex isAsciiWhitespace CSS_imageEl"
  by (simp add: CSS_imageEl_def js_def isAsciiWhitespace_def)

lemma make_imageEl:
  "make tag (ClassName CSS_imageEl) attributes =
     Inr (assign_properties
       \<lparr>tagName = tag, classList = [CSS_imageEl], properties = [], eventListeners = []\<rparr>
       attributes)"
  using CSS_imageEl_valid by (simp add: make_def createElement_def classList_add_def)

lemma suffix_mp4_mp3: "suffix (js ''.mp4'') url \<Longrightarrow> \<not> suffix (js ''.mp3'') url"
proof
  assume "suffix (js ''.mp4'') url" "suffix (js ''.mp3'') url"
  then obtain xs ys where "url = xs @ js ''.mp4''" "url = ys @ js ''.mp3''"
    unfolding suffix_def by blast
  then have "xs @ js ''.mp4'' = ys @ js ''.mp3''" by simp
  then have "js ''.mp4'' = js ''.mp3''" by (simp add: js_def)
  then show False by (simp add: js_def)
qed

lemma attr_names_distinct:
  "js ''src'' \<noteq> js ''srcset''" "js ''src'' \<noteq> js ''sizes''" "js ''src'' \<noteq> js ''playsinline''"
  "js ''src'' \<noteq> js ''controls''" "js ''srcset'' \<noteq> js ''sizes''"
  "js ''srcset'' \<noteq> js ''playsinline''" "js ''srcset'' \<noteq> js ''controls''"
  "js ''sizes'' \<noteq> js ''playsinline''" "js ''sizes'' \<noteq> js ''controls''"
  "js ''playsinline'' \<noteq> js ''controls''"
  by (simp_all add: js_def)

lemma tag_names_distinct:
  "js ''IMG'' \<noteq> js ''VIDEO''" "js ''IMG'' \<noteq> js ''AUDIO''" "js ''VIDEO'' \<noteq> js ''AUDIO''"
  "js ''load'' \<noteq> js ''loadeddata''"
  by (simp_all add: js_def)

lemma fillImage_result:
  assumes "(if optimizeImages u then map_sum id Some (srcSet url) else Inr None) = Inr ss"
  shows "fillImage u url =
    Inr (u\<lparr>imageEl := Some (mediaElement url ss),
          imageContainer := imageContainer u @ [mediaElement url ss]\<rparr>)"
proof (cases "optimizeImages u")
  case True
  with assms obtain s where s: "srcSet url = Inr s" "ss = Some s"
    by (cases "srcSet url") auto
  show ?thesis
    using suffix_mp4_mp3 [of url] attr_names_distinct tag_names_distinct
    by (simp add: fillImage_def Let_def True s make_imageEl 
         addEventListener_def mediaTag_def mediaElement_def)
next
  case False
  with assms have ss: "ss = None" by simp
  show ?thesis
    using suffix_mp4_mp3 [of url] attr_names_distinct tag_names_distinct
    by (simp add: fillImage_def Let_def False ss make_imageEl 
        addEventListener_def mediaTag_def mediaElement_def)
qed

lemma fillImage_throws:
  assumes "optimizeImages u" and "srcSet url = Inl e"
  shows "fillImage u url = Inl e"
  using assms by (simp add: fillImage_def Let_def)

lemma mediaElement_properties:
  "map_of (properties (mediaElement url ss)) (js ''src'') = Some (AString url)"
  "map_of (properties (mediaElement url ss)) (js ''srcset'') = map_option AString ss"
  "map_of (properties (mediaElement url ss)) (js ''sizes'') = map_option (\<lambda>s. AString (js ''100vw'')) ss"
  "map_of (properties (mediaElement url ss)) (js ''controls'') =
         (if mediaTag url = js ''IMG'' then None else Some (ABoolean True))"
  "map_of (properties (mediaElement url ss)) (js ''playsinline'') =
         (if mediaTag url = js ''VIDEO'' then Some (ABoolean True) else None)"
  using attr_names_distinct tag_names_distinct
  by (auto simp: mediaElement_def mediaTag_def split: option.splits)

lemma mediaReady_result:
  "\<exists>u'. mediaReady u = Inr u' \<and> filter (markerActive u') Ui_status = [status_FILLED]"
proof -
  obtain u1 where u1: "toggleStatus u status_FILLED = Inr u1"
    "\<forall>v\<in>set Ui_status. markerActive u1 v \<longleftrightarrow> status_FILLED = v"
    using toggleStatus_result by blast
  have "filter (markerActive u1) Ui_status = [status_FILLED]"
    using active_markers [OF u1(2)] by (simp add: Ui_status_def)
  moreover have "markerActive (u1\<lparr>imagePreloader := b\<rparr>) = markerActive u1" for b
    by (simp add: markerActive_def fun_eq_iff)
  ultimately show ?thesis
    by (cases "imagePreloader u1") (simp_all add: mediaReady_def u1(1))
qed

lemma dispatchEvent_mediaElement:
  "dispatchEvent u (mediaElement url ss) eventName =
     (if (if mediaTag url = js ''IMG'' then js ''load'' else js ''loadeddata'') = eventName
      then mediaReady u else Inr u)"
  by (auto simp: dispatchEvent_def mediaElement_def split: sum.splits)

lemma fillImage_element_kind:
  assumes "\<not> optimizeImages u \<or> srcSet url = Inr s"
  shows "\<exists>u' el. fillImage u url = Inr u' \<and> imageEl u' = Some el
    \<and> tagName el = (if suffix (js ''.mp4'') url then js ''VIDEO''
                     else if suffix (js ''.mp3'') url then js ''AUDIO'' else js ''IMG'')
    \<and> map_of (properties el) (js ''controls'') =
         (if suffix (js ''.mp4'') url \<or> suffix (js ''.mp3'') url then Some (ABoolean True) else None)
    \<and> map_of (properties el) (js ''playsinline'') =
         (if suffix (js ''.mp4'') url then Some (ABoolean True) else None)
    \<and> (\<exists>u''. dispatchEvent u' el
           (if suffix (js ''.mp4'') url \<or> suffix (js ''.mp3'') url then js ''loadeddata'' else js ''load'')
           = Inr u'' \<and> filter (markerActive u'') Ui_status = [status_FILLED])
    \<and> dispatchEvent u' el
           (if suffix (js ''.mp4'') url \<or> suffix (js ''.mp3'') url then js ''load'' else js ''loadeddata'')
           = Inr u'"
proof -
  define ss where "ss = (if optimizeImages u then Some s else None)"
  have "(if optimizeImages u then map_sum id Some (srcSet url) else Inr None) = Inr ss"
    using assms by (auto simp: ss_def)
  note r = fillImage_result [OF this]
  let ?u' = "u\<lparr>imageEl := Some (mediaElement url ss),
          imageContainer := imageContainer u @ [mediaElement url ss]\<rparr>"
  obtain u'' where u'': "mediaReady ?u' = Inr u''"
      "filter (markerActive u'') Ui_status = [status_FILLED]"
    using mediaReady_result by blast
  have tag: "mediaTag url = (if suffix (js ''.mp4'') url then js ''VIDEO''
                     else if suffix (js ''.mp3'') url then js ''AUDIO'' else js ''IMG'')"
    using suffix_mp4_mp3 [of url] by (simp add: mediaTag_def)
  have "tagName (mediaElement url ss) = mediaTag url" by (simp add: mediaElement_def)
  then show ?thesis
    using r u'' tag tag_names_distinct
    by (auto simp: mediaElement_properties dispatchEvent_mediaElement)
qed

text \<open>
  Claim C7 says that \<open>fillImage\<close> yields a video element for every URL that ends in
  \<open>.mp4\<close>. With \<open>optimizeImages\<close> on, the \<open>URIError\<close> of \<open>getResizedUrl\<close> leaves
  \<open>fillImage\<close> before any element is made. Whenever \<open>fillImage\<close> returns, the element is
  the one the claim describes (\<open>fillImage_element_kind\<close>).
\<close>

theorem fillImage_malformed_escape_throws:
  "fillImage ui1 (js ''https://ntmg-media.s3.us-west-1.amazonaws.com/100%.mp4'') = Inl URIError"
proof -
  have "getResizedUrl (js ''https://ntmg-media.s3.us-west-1.amazonaws.com/100%.mp4'')
      \<lparr>resize = \<lparr>height = None, width = Some 640, fit = Cover\<rparr>\<rparr> = Inl URIError"
    by (simp add: getResizedUrl_def js_def s3Hostname_def split_def hexDigit_def)
  then have "srcSet (js ''https://ntmg-media.s3.us-west-1.amazonaws.com/100%.mp4'') = Inl URIError"
    by (simp add: srcSet_def)
  then show ?thesis by (simp add: fillImage_def Let_def ui1_def)
qed





subsection \<open>Base64 round trip\<close>

lemma base64Char_cases:
  "\<forall>i<64. base64Alphabet ! i =
     (if i < 26 then of_nat (0x41 + i) else if i < 52 then of_nat (0x61 + (i - 26))
      else if i < 62 then of_nat (0x30 + (i - 52)) else if i = 62 then 0x2B else 0x2F)"
  by (simp add: base64Alphabet_def js_def All_less_Suc eval_nat_numeral)

lemma base64Index_unat:
  "base64Index c =
     (if 65 \<le> unat c \<and> unat c \<le> 90 then Some (unat c - 65)
      else if 97 \<le> unat c \<and> unat c \<le> 122 then Some (unat c - 97 + 26)
      else if 48 \<le> unat c \<and> unat c \<le> 57 then Some (unat c - 48 + 52)
      else if unat c = 43 then Some 62
      else if unat c = 47 then Some 63
      else None)"
  by (simp add: base64Index_def word_le_nat_alt word_unat_eq_iff)

lemma unat_base64Char:
  assumes "i < 64"
  shows "unat (base64Char i) =
     (if i < 26 then 65 + i else if i < 52 then 97 + (i - 26)
      else if i < 62 then 48 + (i - 52) else if i = 62 then 43 else 47)"
proof -
  have "base64Char i =
     (if i < 26 then of_nat (0x41 + i) else if i < 52 then of_nat (0x61 + (i - 26))
      else if i < 62 then of_nat (0x30 + (i - 52)) else if i = 62 then 0x2B else 0x2F)"
    using base64Char_cases assms by (simp add: base64Char_def)
  then show ?thesis
    using assms by (simp add: unat_of_nat del: of_nat_add of_nat_diff)
qed

lemma base64Index_base64Char:
  assumes "i < 64"
  shows "base64Index (base64Char i) = Some i" and "base64Char i \<noteq> 0x3D"
proof -
  show "base64Index (base64Char i) = Some i"
    using assms by (auto simp: base64Index_unat unat_base64Char)
  have "unat (base64Char i) \<noteq> 61"
    using assms by (auto simp: unat_base64Char)
  then show "base64Char i \<noteq> 0x3D" by auto
qed

lemma sextets_bound:
  fixes a b c :: nat
  assumes "a < 256" "b < 256" "c < 256"
  shows "a div 4 < 64" "a mod 4 * 16 < 64" "a mod 4 * 16 + b div 16 < 64"
    "b mod 16 * 4 < 64" "b mod 16 * 4 + c div 64 < 64" "c mod 64 < 64"
  using assms by linarith+

lemma bytes_of_sextets_nat:
  fixes a b c :: nat
  assumes "a < 256" "b < 256" "c < 256"
  shows "a div 4 * 4 + (a mod 4 * 16 + b div 16) div 16 = a"
    and "(a mod 4 * 16 + b div 16) mod 16 * 16 + (b mod 16 * 4 + c div 64) div 4 = b"
    and "(b mod 16 * 4 + c div 64) mod 4 * 64 + c mod 64 = c"
    and "a div 4 * 4 + (a mod 4 * 16) div 16 = a"
    and "(a mod 4 * 16 + b div 16) mod 16 * 16 + (b mod 16 * 4) div 4 = b"
proof -
  have b16: "b div 16 < 16" and c64: "c div 64 < 4" using assms by linarith+
  have s1d: "(a mod 4 * 16 + b div 16) div 16 = a mod 4"
    and s1m: "(a mod 4 * 16 + b div 16) mod 16 = b div 16"
    using b16 by simp_all
  have s2d: "(b mod 16 * 4 + c div 64) div 4 = b mod 16"
    and s2m: "(b mod 16 * 4 + c div 64) mod 4 = c div 64"
    using c64 by simp_all
  show "a div 4 * 4 + (a mod 4 * 16 + b div 16) div 16 = a"
    by (simp add: s1d)
  show "(a mod 4 * 16 + b div 16) mod 16 * 16 + (b mod 16 * 4 + c div 64) div 4 = b"
    using b16 by (simp add: s1m s2d)
  show "(b mod 16 * 4 + c div 64) mod 4 * 64 + c mod 64 = c"
    using c64 by (simp add: s2m)
  show "a div 4 * 4 + (a mod 4 * 16) div 16 = a"
    by simp
  show "(a mod 4 * 16 + b div 16) mod 16 * 16 + (b mod 16 * 4) div 4 = b"
    using b16 by (simp add: s1m)
qed

lemma of_nat_unat_byte: "n = unat (a :: byte) \<Longrightarrow> of_nat n = a"
  by simp

lemma base64ToByteArray_base64FromByteArray:
  "base64ToByteArray (base64FromByteArray bytes) = Some bytes"
proof (induction bytes rule: base64FromByteArray.induct)
  case 1
  then show ?case by simp
next
  case (2 a)
  have bd: "unat a < 256" using unsigned_less [of a] by simp
  note sb = sextets_bound [OF bd bd bd]
  show ?case
    using bytes_of_sextets_nat(4) [OF bd bd bd]
    by (simp add: base64Index_base64Char sb of_nat_unat_byte)
next
  case (3 a b)
  have bd: "unat a < 256" "unat b < 256"
    using unsigned_less [of a] unsigned_less [of b] by simp_all
  note sb = sextets_bound [OF bd(1) bd(2) bd(2)]
  show ?case
    using bytes_of_sextets_nat(4,5) [OF bd(1) bd(2) bd(2)]
      bytes_of_sextets_nat(1) [OF bd(1) bd(2) bd(2)]
    by (simp add: base64Index_base64Char sb of_nat_unat_byte)
next
  case (4 a b c rest)
  have bd: "unat a < 256" "unat b < 256" "unat c < 256"
    using unsigned_less [of a] unsigned_less [of b] unsigned_less [of c] by simp_all
  note sb = sextets_bound [OF bd]
  show ?case
    using bytes_of_sextets_nat(1,2,3) [OF bd] 4
    by (simp add: base64Index_base64Char sb of_nat_unat_byte)
qed

subsection \<open>UTF-8 round trip\<close>

lemma utf8Octets_bound: "v < 0x110000 \<Longrightarrow> x \<in> set (utf8Octets v) \<Longrightarrow> x < 256"
  by (auto simp: utf8Octets_def split: if_splits)

lemma unat_utf8Bytes: "v < 0x110000 \<Longrightarrow> map unat (utf8Bytes v) = utf8Octets v"
proof -
  assume v: "v < 0x110000"
  have "map unat (map of_nat xs :: byte list) = xs" if "\<forall>x\<in>set xs. x < 256" for xs
    using that by (induction xs) (simp_all add: unat_of_nat)
  then show ?thesis using utf8Octets_bound [OF v] by (simp add: utf8Bytes_def)
qed

lemma split_code_point:
  fixes v :: nat
  shows "v div 64 * 64 + v mod 64 = v"
    and "v div 4096 * 4096 + v div 64 mod 64 * 64 + v mod 64 = v"
    and "v div 262144 * 262144 + v div 4096 mod 64 * 4096 + v div 64 mod 64 * 64 + v mod 64 = v"
proof -
  show 1: "v div 64 * 64 + v mod 64 = v" by simp
  have d2: "v div 4096 = v div 64 div 64" by (simp add: div_mult2_eq)
  have 2: "v div 64 div 64 * 64 + v div 64 mod 64 = v div 64" by simp
  show 3: "v div 4096 * 4096 + v div 64 mod 64 * 64 + v mod 64 = v"
    using 1 2 unfolding d2 by linarith
  have d3: "v div 262144 = v div 4096 div 64" by (simp add: div_mult2_eq)
  have 4: "v div 4096 div 64 * 64 + v div 4096 mod 64 = v div 4096" by simp
  show "v div 262144 * 262144 + v div 4096 mod 64 * 4096 + v div 64 mod 64 * 64 + v mod 64 = v"
    using 3 4 unfolding d3 by linarith
qed

lemma utf8CodePoint_utf8Octets:
  assumes "0x80 \<le> v" "v < 0x110000" "\<not> (0xD800 \<le> v \<and> v \<le> 0xDFFF)"
  shows "utf8CodePoint (utf8Octets v) = Some v"
    and "leadingOnes (hd (utf8Octets v)) = length (utf8Octets v)"
    and "1 < length (utf8Octets v)" and "length (utf8Octets v) \<le> 4"
proof -
  consider "v < 0x800" | "0x800 \<le> v" "v < 0x10000" | "0x10000 \<le> v"
    by linarith
  then have "utf8CodePoint (utf8Octets v) = Some v
    \<and> leadingOnes (hd (utf8Octets v)) = length (utf8Octets v)
    \<and> 1 < length (utf8Octets v) \<and> length (utf8Octets v) \<le> 4"
  proof cases
    case 1
    have "v div 64 < 32" using 1 by linarith
    then show ?thesis
      using assms 1 split_code_point(1) [of v]
      by (simp add: utf8Octets_def leadingOnes_def isContinuation_def)
  next
    case 2
    have "v div 4096 < 16" using 2 by linarith
    then show ?thesis
      using assms 2 split_code_point(2) [of v]
      by (simp add: utf8Octets_def leadingOnes_def isContinuation_def)
  next
    case 3
    have "v div 262144 < 8" using 3 assms by linarith
    then show ?thesis
      using assms 3 split_code_point(3) [of v]
      by (simp add: utf8Octets_def leadingOnes_def isContinuation_def)
  qed
  then show "utf8CodePoint (utf8Octets v) = Some v"
    and "leadingOnes (hd (utf8Octets v)) = length (utf8Octets v)"
    and "1 < length (utf8Octets v)" and "length (utf8Octets v) \<le> 4"
    by simp_all
qed

lemma TextDecoder_decode_utf8Bytes:
  assumes "v < 0x110000" "\<not> (0xD800 \<le> v \<and> v \<le> 0xDFFF)"
  shows "TextDecoder_decode (utf8Bytes v @ rest) =
     map_option ((@) (UTF16EncodeCodePoint v)) (TextDecoder_decode rest)"
proof (cases "v < 0x80")
  case True
  then have "utf8Bytes v = [of_nat v]" "unat (of_nat v :: byte) = v"
    by (simp_all add: utf8Bytes_def utf8Octets_def unat_of_nat)
  then show ?thesis
    using True by (simp add: leadingOnes_def UTF16EncodeCodePoint_def split: option.split)
next
  case False
  then have v: "0x80 \<le> v" by simp
  note f = utf8CodePoint_utf8Octets [OF v assms]
  obtain a bs where bytes: "utf8Bytes v = a # bs"
    using f(3) by (cases "utf8Bytes v") (auto simp: utf8Bytes_def)
  have m: "map unat (a # bs) = utf8Octets v"
    using unat_utf8Bytes [OF assms(1)] bytes by simp
  then have a: "unat a = hd (utf8Octets v)" and len: "Suc (length bs) = length (utf8Octets v)"
    by (metis list.sel(1) list.simps(9), metis length_Cons length_map)
  have lo: "leadingOnes (unat a) = Suc (length bs)"
    using f(2) a len by simp
  have n: "leadingOnes (unat a) - 1 = length bs" "leadingOnes (unat a) \<noteq> 0"
    "leadingOnes (unat a) \<noteq> 1" "\<not> 4 < leadingOnes (unat a)"
    using f(3,4) len unfolding lo by linarith+
  have "utf8CodePoint (map unat (a # take (length bs) (bs @ rest))) = Some v"
    using m f(1) by simp
  then show ?thesis
    using n by (simp add: bytes split: option.split)
qed

lemma surrogate_unat:
  "isLeadingSurrogate c \<longleftrightarrow> 0xD800 \<le> unat c \<and> unat c \<le> 0xDBFF"
  "isTrailingSurrogate c \<longleftrightarrow> 0xDC00 \<le> unat c \<and> unat c \<le> 0xDFFF"
  by (simp_all add: isLeadingSurrogate_def isTrailingSurrogate_def word_le_nat_alt)

lemma UTF16EncodeCodePoint_unit: "UTF16EncodeCodePoint (unat (c :: code_unit)) = [c]"
proof -
  have "unat c < 65536" using unsigned_less [of c] by simp
  then show ?thesis by (simp add: UTF16EncodeCodePoint_def)
qed

lemma pairCodePoint_range:
  assumes "isLeadingSurrogate c" "isTrailingSurrogate d"
  shows "0x10000 \<le> pairCodePoint c d" "pairCodePoint c d < 0x110000"
proof -
  have "unat c - 0xD800 < 1024" "unat d - 0xDC00 < 1024"
    using assms unfolding surrogate_unat by linarith+
  then show "0x10000 \<le> pairCodePoint c d" "pairCodePoint c d < 0x110000"
    unfolding pairCodePoint_def by linarith+
qed

lemma UTF16EncodeCodePoint_pair:
  assumes "isLeadingSurrogate c" "isTrailingSurrogate d"
  shows "UTF16EncodeCodePoint (pairCodePoint c d) = [c, d]"
proof -
  define h where "h = unat c - 0xD800"
  define l where "l = unat d - 0xDC00"
  have hl: "l < 1024" "unat c = 0xD800 + h" "unat d = 0xDC00 + l"
    using assms unfolding surrogate_unat h_def l_def by linarith+
  have v: "pairCodePoint c d - 0x10000 = h * 1024 + l"
    by (simp add: pairCodePoint_def h_def l_def)
  have "(h * 1024 + l) div 1024 = h" "(h * 1024 + l) mod 1024 = l"
    using hl(1) by simp_all
  then have "0xD800 + (pairCodePoint c d - 0x10000) div 1024 = unat c"
    "0xDC00 + (pairCodePoint c d - 0x10000) mod 1024 = unat d"
    using hl(2,3) by (simp_all only: v)
  then have "of_nat (0xD800 + (pairCodePoint c d - 0x10000) div 1024) = c"
    "of_nat (0xDC00 + (pairCodePoint c d - 0x10000) mod 1024) = d"
    by (simp_all only: of_nat_unat ucast_id)
  moreover have "\<not> pairCodePoint c d \<le> 0xFFFF"
    using pairCodePoint_range(1) [OF assms] by simp
  ultimately show ?thesis by (simp only: UTF16EncodeCodePoint_def if_False)
qed

lemma TextDecoder_decode_unit:
  assumes "\<not> isLeadingSurrogate c" "\<not> isTrailingSurrogate c"
  shows "TextDecoder_decode (utf8Bytes (unat c) @ rest) =
     map_option ((#) c) (TextDecoder_decode rest)"
proof -
  have "unat c < 65536" using unsigned_less [of c] by simp
  then have "unat c < 0x110000" "\<not> (0xD800 \<le> unat c \<and> unat c \<le> 0xDFFF)"
    using assms by (auto simp: surrogate_unat)
  from TextDecoder_decode_utf8Bytes [OF this] show ?thesis
    by (cases "TextDecoder_decode rest") (simp_all add: UTF16EncodeCodePoint_unit)
qed

lemma TextDecoder_decode_pair:
  assumes "isLeadingSurrogate c" "isTrailingSurrogate d"
  shows "TextDecoder_decode (utf8Bytes (pairCodePoint c d) @ rest) =
     map_option (\<lambda>s. c # d # s) (TextDecoder_decode rest)"
proof -
  have "pairCodePoint c d < 0x110000" "\<not> (0xD800 \<le> pairCodePoint c d \<and> pairCodePoint c d \<le> 0xDFFF)"
    using pairCodePoint_range [OF assms] by simp_all
  from TextDecoder_decode_utf8Bytes [OF this] show ?thesis
    by (cases "TextDecoder_decode rest") (simp_all add: UTF16EncodeCodePoint_pair [OF assms])
qed

lemma TextDecoder_decode_TextEncoder_encode:
  "wellFormedUTF16 s \<Longrightarrow> TextDecoder_decode (TextEncoder_encode s) = Some s"
proof (induction s rule: TextEncoder_encode.induct)
  case 1
  then show ?case by simp
next
  case (2 c)
  then show ?case
    using TextDecoder_decode_unit [of c "[]"] by simp
next
  case (3 c d ds)
  show ?case
  proof (cases "isLeadingSurrogate c \<and> isTrailingSurrogate d")
    case True
    then show ?thesis
      using 3 TextDecoder_decode_pair [of c d "TextEncoder_encode ds"] by simp
  next
    case False
    then have "\<not> isLeadingSurrogate c" "\<not> isTrailingSurrogate c" "wellFormedUTF16 (d # ds)"
      using 3(4) by auto
    then show ?thesis
      using 3 False TextDecoder_decode_unit [of c "TextEncoder_encode (d # ds)"] by simp
  qed
qed

subsection \<open>JSON round trip\<close>

lemma hexDigit_unat:
  "hexDigit c =
     (if 48 \<le> unat c \<and> unat c \<le> 57 then Some (unat c - 48)
      else if 65 \<le> unat c \<and> unat c \<le> 70 then Some (unat c - 65 + 10)
      else if 97 \<le> unat c \<and> unat c \<le> 102 then Some (unat c - 97 + 10)
      else None)"
  by (simp add: hexDigit_def word_le_nat_alt)

lemma unat_hexChar:
  "d < 16 \<Longrightarrow> unat (hexChar d) = (if d < 10 then 48 + d else 97 + (d - 10))"
  by (simp add: hexChar_def unat_of_nat del: of_nat_add of_nat_diff)

lemma hexDigit_hexChar: "d < 16 \<Longrightarrow> hexDigit (hexChar d) = Some d"
  by (auto simp: hexDigit_unat unat_hexChar)

lemma hex_digits_value:
  fixes n :: nat
  assumes "n < 65536"
  shows "n div 4096 < 16"
    and "n div 4096 * 4096 + n div 256 mod 16 * 256 + n div 16 mod 16 * 16 + n mod 16 = n"
proof -
  show "n div 4096 < 16" using assms by linarith
  have d2: "n div 256 = n div 16 div 16" and d3: "n div 4096 = n div 16 div 16 div 16"
    by (simp_all add: div_mult2_eq)
  have 1: "n div 16 * 16 + n mod 16 = n" by simp
  have 2: "n div 16 div 16 * 16 + n div 16 mod 16 = n div 16" by simp
  have 3: "n div 16 div 16 div 16 * 16 + n div 16 div 16 mod 16 = n div 16 div 16" by simp
  show "n div 4096 * 4096 + n div 256 mod 16 * 256 + n div 16 mod 16 * 16 + n mod 16 = n"
    using 1 2 3 unfolding d2 d3 by linarith
qed

lemma parseStringChars_UnicodeEscape:
  "parseStringChars (UnicodeEscape c @ tail) =
     (case parseStringChars tail of None \<Rightarrow> None | Some (s, r) \<Rightarrow> Some (c # s, r))"
proof -
  have n: "unat c < 65536" using unsigned_less [of c] by simp
  have v: "of_nat (unat c div 4096 * 4096 + unat c div 256 mod 16 * 256
      + unat c div 16 mod 16 * 16 + unat c mod 16) = c"
    by (simp only: hex_digits_value(2) [OF n] of_nat_unat ucast_id)
  have h: "hexDigit (hexChar (unat c div 4096)) = Some (unat c div 4096)"
    "hexDigit (hexChar (unat c div 256 mod 16)) = Some (unat c div 256 mod 16)"
    "hexDigit (hexChar (unat c div 16 mod 16)) = Some (unat c div 16 mod 16)"
    "hexDigit (hexChar (unat c mod 16)) = Some (unat c mod 16)"
    using hex_digits_value(1) [OF n] by (simp_all add: hexDigit_hexChar)
  show ?thesis
    by (simp add: UnicodeEscape_def h v split: option.split del: of_nat_add of_nat_mult)
qed

lemma parseStringChars_quoteCodeUnit:
  "parseStringChars (quoteCodeUnit c @ tail) =
     (case parseStringChars tail of None \<Rightarrow> None | Some (s, r) \<Rightarrow> Some (c # s, r))"
proof (cases "c = 0x08 \<or> c = 0x09 \<or> c = 0x0A \<or> c = 0x0C \<or> c = 0x0D \<or> c = 0x22 \<or> c = 0x5C")
  case True
  then show ?thesis
    by (auto simp: quoteCodeUnit_def unescapeChar_def split: option.split)
next
  case False
  show ?thesis
  proof (cases "c < 0x20 \<or> isLeadingSurrogate c \<or> isTrailingSurrogate c")
    case True
    then show ?thesis
      using False parseStringChars_UnicodeEscape [of c tail] by (simp add: quoteCodeUnit_def)
  next
    case n: False
    then show ?thesis
      using False by (simp add: quoteCodeUnit_def split: option.split)
  qed
qed

lemma surrogate_plain:
  assumes "isLeadingSurrogate c \<or> isTrailingSurrogate c"
  shows "c \<noteq> 0x22" "c \<noteq> 0x5C" "\<not> c < 0x20"
  using assms
  by (auto simp: isLeadingSurrogate_def isTrailingSurrogate_def word_le_nat_alt word_less_nat_alt)

lemma parseStringChars_quoteCodePoints:
  "parseStringChars (quoteCodePoints s @ 0x22 # rest) = Some (s, rest)"
proof (induction s rule: quoteCodePoints.induct)
  case 1
  then show ?case by simp
next
  case (2 c)
  then show ?case by (simp add: parseStringChars_quoteCodeUnit)
next
  case (3 c d ds)
  show ?case
  proof (cases "isLeadingSurrogate c \<and> isTrailingSurrogate d")
    case True
    then have e: "quoteCodePoints (c # d # ds) = c # d # quoteCodePoints ds" by simp
    have "parseStringChars (quoteCodePoints ds @ 0x22 # rest) = Some (ds, rest)"
      using 3(1) [OF True] .
    then show ?thesis
      using True surrogate_plain [of c] surrogate_plain [of d]
      by (simp add: e del: quoteCodePoints.simps)
  next
    case False
    then have e: "quoteCodePoints (c # d # ds) = quoteCodeUnit c @ quoteCodePoints (d # ds)"
      by auto
    have "parseStringChars (quoteCodePoints (d # ds) @ 0x22 # rest) = Some (d # ds, rest)"
      using 3(2) [OF False] .
    then show ?thesis
      by (simp add: e parseStringChars_quoteCodeUnit del: quoteCodePoints.simps)
  qed
qed

lemma parseString_QuoteJSONString:
  "parseString (QuoteJSONString s @ rest) = Some (s, rest)"
  by (simp add: parseString_def QuoteJSONString_def parseStringChars_quoteCodePoints)

lemma digit_char:
  assumes "d < 10"
  shows "isDigit (of_nat (0x30 + d))" and "unat (of_nat (0x30 + d) :: code_unit) - 0x30 = d"
proof -
  have u: "unat (of_nat (0x30 + d) :: code_unit) = 0x30 + d"
    using assms by (simp add: unat_of_nat del: of_nat_add)
  show "isDigit (of_nat (0x30 + d))"
    unfolding isDigit_def word_le_nat_alt u using assms by simp
  show "unat (of_nat (0x30 + d) :: code_unit) - 0x30 = d"
    unfolding u by simp
qed

lemma parseDigits_decimalDigits:
  "parseDigits acc (decimalDigits n @ rest) =
     parseDigits (acc * 10 ^ length (decimalDigits n) + n) rest"
proof (induction n arbitrary: acc rest rule: decimalDigits.induct)
  case (1 n)
  show ?case
  proof (cases "n < 10")
    case True
    then have e: "decimalDigits n = [of_nat (0x30 + n)]"
      by (simp add: decimalDigits.simps)
    show ?thesis
      using digit_char [OF True] by (simp add: e del: of_nat_add)
  next
    case False
    have m: "n mod 10 < 10" by simp
    have e: "decimalDigits n = decimalDigits (n div 10) @ [of_nat (0x30 + n mod 10)]"
      using False by (subst decimalDigits.simps) simp
    have "parseDigits acc (decimalDigits n @ rest) =
        parseDigits (acc * 10 ^ length (decimalDigits (n div 10)) + n div 10)
          (of_nat (0x30 + n mod 10) # rest)"
      using 1 [OF False, of acc "of_nat (0x30 + n mod 10) # rest"] by (simp add: e)
    also have "\<dots> = parseDigits
        ((acc * 10 ^ length (decimalDigits (n div 10)) + n div 10) * 10 + n mod 10) rest"
      using digit_char [OF m] by (simp del: of_nat_add)
    also have "(acc * 10 ^ length (decimalDigits (n div 10)) + n div 10) * 10 + n mod 10 =
        acc * 10 ^ length (decimalDigits n) + n"
      by (simp add: e algebra_simps)
    finally show ?thesis .
  qed
qed

lemma decimalDigits_first:
  "\<exists>c cs. decimalDigits n = c # cs \<and> isDigit c"
proof (induction n rule: decimalDigits.induct)
  case (1 n)
  show ?case
  proof (cases "n < 10")
    case True
    then show ?thesis
      using digit_char(1) [OF True] by (simp add: decimalDigits.simps del: of_nat_add)
  next
    case False
    then obtain c cs where "decimalDigits (n div 10) = c # cs" "isDigit c"
      using 1 by blast
    moreover have "decimalDigits n = decimalDigits (n div 10) @ [of_nat (0x30 + n mod 10)]"
      using False by (subst decimalDigits.simps) simp
    ultimately show ?thesis by simp
  qed
qed

lemma parseNumber_NumberToString:
  assumes "\<not> isDigit c"
  shows "parseNumber (NumberToString i @ c # rest) = Some (i, c # rest)"
proof -
  have stop: "parseDigits acc (c # rest) = (acc, c # rest)" for acc
    using assms by simp
  show ?thesis
  proof (cases "i < 0")
    case True
    obtain d ds where d: "decimalDigits (nat (- i)) = d # ds" "isDigit d"
      using decimalDigits_first by blast
    have "parseDigits 0 (decimalDigits (nat (- i)) @ c # rest) = (nat (- i), c # rest)"
      by (simp add: parseDigits_decimalDigits stop del: parseDigits.simps)
    then have "parseDigits 0 (d # ds @ c # rest) = (nat (- i), c # rest)"
      by (simp add: d(1))
    then show ?thesis
      using True d(2)
      by (simp add: parseNumber_def NumberToString_def d(1) del: parseDigits.simps)
  next
    case False
    obtain d ds where d: "decimalDigits (nat i) = d # ds" "isDigit d"
      using decimalDigits_first by blast
    have nd: "d \<noteq> 0x2D" using d(2) by (auto simp: isDigit_def)
    have "parseDigits 0 (decimalDigits (nat i) @ c # rest) = (nat i, c # rest)"
      by (simp add: parseDigits_decimalDigits stop del: parseDigits.simps)
    then have "parseDigits 0 (d # ds @ c # rest) = (nat i, c # rest)"
      by (simp add: d(1))
    then show ?thesis
      using False d(2) nd
      by (simp add: parseNumber_def NumberToString_def d(1) del: parseDigits.simps)
  qed
qed

lemma expect_append: "expect lit (lit @ rest) = Some rest"
  by (simp add: expect_def)

lemma expect_self: "expect lit lit = Some []"
  by (simp add: expect_def)

lemma parseMember_member_json:
  "parseMember name (member_json name' v @ rest) =
     (if js name' = js name then Some (v @ rest) else None)"
  by (simp add: parseMember_def member_json_def parseString_QuoteJSONString expect_append)

lemma fitOfString_fitString: "fitOfString (fitString m) = Some m"
  by (cases m) (simp_all add: fitOfString_def js_def)

lemma parseNumber_before_comma:
  "parseNumber (NumberToString i @ js '','' @ rest) = Some (i, js '','' @ rest)"
proof -
  have "\<not> isDigit 0x2C" by (simp add: isDigit_def)
  from parseNumber_NumberToString [OF this, of i rest] show ?thesis
    by (simp add: js_def)
qed

lemma parseOptionalNumber_present:
  "parseOptionalNumber name (member_json name (NumberToString n) @ js '','' @ rest) =
     Some (Some n, rest)"
  by (simp add: parseOptionalNumber_def parseMember_member_json parseNumber_before_comma
      expect_append)

lemma parseOptionalNumber_absent:
  "js name' \<noteq> js name \<Longrightarrow>
   parseOptionalNumber name (member_json name' v @ rest) = Some (None, member_json name' v @ rest)"
  by (simp add: parseOptionalNumber_def parseMember_member_json)

lemma member_names_distinct:
  "js ''width'' \<noteq> js ''height''" "js ''fit'' \<noteq> js ''height''" "js ''fit'' \<noteq> js ''width''"
  by (simp_all add: js_def)

lemma parseResize_stringify_resize:
  "parseResize (stringify_resize r @ rest) = Some (r, rest)"
proof -
  have fit_part: "do {
       s4 \<leftarrow> parseMember ''fit'' (member_json ''fit'' (QuoteJSONString (fitString (fit r))) @ js ''}'' @ rest);
       (f, s5) \<leftarrow> parseString s4;
       m \<leftarrow> fitOfString f;
       s6 \<leftarrow> expect (js ''}'') s5;
       Some (\<lparr>height = h, width = w, fit = m\<rparr>, s6)
     } = Some (\<lparr>height = h, width = w, fit = fit r\<rparr>, rest)" for h w
    by (simp add: parseMember_member_json parseString_QuoteJSONString fitOfString_fitString
        expect_append)
  show ?thesis
  proof (cases "height r")
    case hn: None
    show ?thesis
    proof (cases "width r")
      case None
      have "r = \<lparr>height = None, width = None, fit = fit r\<rparr>"
        using hn None by (cases r) simp
      then show ?thesis
        using fit_part [of None None]
        by (simp add: parseResize_def stringify_resize_def object_json_def hn None
            expect_append parseOptionalNumber_absent member_names_distinct)
    next
      case (Some w)
      have "r = \<lparr>height = None, width = Some w, fit = fit r\<rparr>"
        using hn Some by (cases r) simp
      then show ?thesis
        using fit_part [of None "Some w"]
        by (simp add: parseResize_def stringify_resize_def object_json_def hn Some
            expect_append parseOptionalNumber_absent parseOptionalNumber_present
            member_names_distinct)
    qed
  next
    case hs: (Some h)
    show ?thesis
    proof (cases "width r")
      case None
      have "r = \<lparr>height = Some h, width = None, fit = fit r\<rparr>"
        using hs None by (cases r) simp
      then show ?thesis
        using fit_part [of "Some h" None]
        by (simp add: parseResize_def stringify_resize_def object_json_def hs None
            expect_append parseOptionalNumber_absent parseOptionalNumber_present
            member_names_distinct)
    next
      case (Some w)
      have "r = \<lparr>height = Some h, width = Some w, fit = fit r\<rparr>"
        using hs Some by (cases r) simp
      then show ?thesis
        using fit_part [of "Some h" "Some w"]
        by (simp add: parseResize_def stringify_resize_def object_json_def hs Some
            expect_append parseOptionalNumber_absent parseOptionalNumber_present
            member_names_distinct)
    qed
  qed
qed

lemma parseEdits_stringify_edits:
  "parseEdits (stringify_edits e @ rest) = Some (e, rest)"
proof -
  have "e = \<lparr>resize = resize e\<rparr>" by (cases e) simp
  then show ?thesis
    by (simp add: parseEdits_def stringify_edits_def object_json_def expect_append
        parseMember_member_json parseResize_stringify_resize)
qed

lemma JSON_parse_JSON_stringify: "JSON_parse (JSON_stringify r) = Some r"
proof -
  have "r = \<lparr>bucket = bucket r, key = key r, edits = edits r\<rparr>" by (cases r) simp
  then show ?thesis
    by (simp add: JSON_parse_def JSON_stringify_def object_json_def expect_append expect_self
        parseMember_member_json parseString_QuoteJSONString parseEdits_stringify_edits)
qed

subsection \<open>The JSON text is well-formed UTF-16\<close>

lemma wellFormedUTF16_Cons:
  "\<not> isSurrogate c \<Longrightarrow> wellFormedUTF16 (c # s) = wellFormedUTF16 s"
  by (cases s) (auto simp: isSurrogate_def)

lemma wellFormedUTF16_plain: "\<forall>x\<in>set s. \<not> isSurrogate x \<Longrightarrow> wellFormedUTF16 s"
  by (induction s) (simp_all add: wellFormedUTF16_Cons)

lemma wellFormedUTF16_append:
  "wellFormedUTF16 a \<Longrightarrow> wellFormedUTF16 b \<Longrightarrow> wellFormedUTF16 (a @ b)"
proof (induction a rule: wellFormedUTF16.induct)
  case 1
  then show ?case by simp
next
  case (2 c)
  then show ?case by (simp add: wellFormedUTF16_Cons isSurrogate_def)
next
  case (3 c d ds)
  show ?case
  proof (cases "isLeadingSurrogate c \<and> isTrailingSurrogate d")
    case True
    then show ?thesis using 3 by simp
  next
    case False
    then have c: "\<not> isSurrogate c" and "wellFormedUTF16 (d # ds)"
      using 3(3) by (auto simp: isSurrogate_def)
    then have "wellFormedUTF16 ((d # ds) @ b)" using 3(2) [OF False] 3(4) by simp
    then show ?thesis using wellFormedUTF16_Cons [OF c, of "d # ds @ b"] by simp
  qed
qed

lemma not_surrogate_small: "unat c < 0xD800 \<Longrightarrow> \<not> isSurrogate c"
  by (simp add: isSurrogate_def surrogate_unat)

lemma js_plain: "x \<in> set (js s) \<Longrightarrow> \<not> isSurrogate x"
proof -
  assume "x \<in> set (js s)"
  then obtain ch where "x = of_nat (of_char ch)" by (auto simp: js_def)
  moreover have lt: "(of_char ch :: nat) < 256" by simp
  moreover have "(of_char ch :: nat) mod 65536 = of_char ch"
    by (rule mod_less, rule less_trans [OF lt]) simp
  ultimately have "unat x < 256" by (simp add: unat_of_nat)
  then show ?thesis by (intro not_surrogate_small) simp
qed

lemma wellFormedUTF16_js: "wellFormedUTF16 (js s)"
  by (intro wellFormedUTF16_plain ballI js_plain)

lemma hexChar_plain: "d < 16 \<Longrightarrow> \<not> isSurrogate (hexChar d)"
  by (intro not_surrogate_small) (simp add: unat_hexChar)

lemma wellFormedUTF16_quoteCodeUnit: "wellFormedUTF16 (quoteCodeUnit c)"
proof -
  have n: "unat c < 65536" using unsigned_less [of c] by simp
  have small: "\<not> isSurrogate (0x5C :: code_unit)" "\<not> isSurrogate (0x75 :: code_unit)"
    "\<not> isSurrogate (0x62 :: code_unit)" "\<not> isSurrogate (0x74 :: code_unit)"
    "\<not> isSurrogate (0x6E :: code_unit)" "\<not> isSurrogate (0x66 :: code_unit)"
    "\<not> isSurrogate (0x72 :: code_unit)" "\<not> isSurrogate (0x22 :: code_unit)"
    by (simp_all add: isSurrogate_def isLeadingSurrogate_def isTrailingSurrogate_def)
  have "wellFormedUTF16 (UnicodeEscape c)"
    using hex_digits_value(1) [OF n] small
    by (intro wellFormedUTF16_plain) (simp add: UnicodeEscape_def hexChar_plain)
  then show ?thesis
    using small by (auto simp: quoteCodeUnit_def isSurrogate_def)
qed

lemma wellFormedUTF16_quoteCodePoints: "wellFormedUTF16 (quoteCodePoints s)"
proof (induction s rule: quoteCodePoints.induct)
  case 1
  then show ?case by simp
next
  case (2 c)
  then show ?case by (simp add: wellFormedUTF16_quoteCodeUnit)
next
  case (3 c d ds)
  then show ?case
    by (auto simp: wellFormedUTF16_quoteCodeUnit intro: wellFormedUTF16_append)
qed

lemma wellFormedUTF16_QuoteJSONString: "wellFormedUTF16 (QuoteJSONString s)"
proof -
  have q: "\<not> isSurrogate (0x22 :: code_unit)"
    by (simp add: isSurrogate_def isLeadingSurrogate_def isTrailingSurrogate_def)
  have "wellFormedUTF16 (quoteCodePoints s @ [0x22])"
    using q by (intro wellFormedUTF16_append wellFormedUTF16_quoteCodePoints)
      (simp add: isSurrogate_def)
  then show ?thesis
    using q by (simp add: QuoteJSONString_def wellFormedUTF16_Cons)
qed

lemma decimalDigits_plain: "x \<in> set (decimalDigits n) \<Longrightarrow> \<not> isSurrogate x"
proof (induction n arbitrary: x rule: decimalDigits.induct)
  case (1 n)
  have d: "\<not> isSurrogate (of_nat (0x30 + k) :: code_unit)" if "k < 10" for k
    using that by (intro not_surrogate_small) (simp add: unat_of_nat del: of_nat_add)
  show ?case
  proof (cases "n < 10")
    case True
    then show ?thesis
      using 1(2) d [OF True] by (simp add: decimalDigits.simps del: of_nat_add)
  next
    case False
    have e: "decimalDigits n = decimalDigits (n div 10) @ [of_nat (0x30 + n mod 10)]"
      using False by (subst decimalDigits.simps) simp
    have "n mod 10 < 10" by simp
    from d [OF this] show ?thesis
      using 1(1) [OF False] 1(2) by (auto simp: e simp del: of_nat_add)
  qed
qed

lemma wellFormedUTF16_NumberToString: "wellFormedUTF16 (NumberToString i)"
proof -
  have "\<not> isSurrogate (0x2D :: code_unit)"
    by (simp add: isSurrogate_def isLeadingSurrogate_def isTrailingSurrogate_def)
  then show ?thesis
    by (intro wellFormedUTF16_plain) (auto simp: NumberToString_def dest: decimalDigits_plain)
qed

lemma wellFormedUTF16_join:
  "\<forall>m\<in>set ms. wellFormedUTF16 m \<Longrightarrow> wellFormedUTF16 sep \<Longrightarrow> wellFormedUTF16 (join ms sep)"
  by (induction ms sep rule: join.induct) (simp_all add: wellFormedUTF16_append)

lemma wellFormedUTF16_member_json:
  "wellFormedUTF16 v \<Longrightarrow> wellFormedUTF16 (member_json name v)"
  by (simp add: member_json_def wellFormedUTF16_append wellFormedUTF16_QuoteJSONString
      wellFormedUTF16_js)

lemma wellFormedUTF16_object_json:
  "\<forall>m\<in>set ms. wellFormedUTF16 m \<Longrightarrow> wellFormedUTF16 (object_json ms)"
  by (simp add: object_json_def wellFormedUTF16_append wellFormedUTF16_join wellFormedUTF16_js)

lemma wellFormedUTF16_stringify_resize: "wellFormedUTF16 (stringify_resize r)"
  unfolding stringify_resize_def
  by (intro wellFormedUTF16_object_json)
    (auto simp: wellFormedUTF16_member_json wellFormedUTF16_NumberToString
      wellFormedUTF16_QuoteJSONString split: option.splits)

lemma wellFormedUTF16_JSON_stringify: "wellFormedUTF16 (JSON_stringify r)"
proof -
  have "wellFormedUTF16 (stringify_edits (edits r))"
    unfolding stringify_edits_def
    by (intro wellFormedUTF16_object_json)
      (simp add: wellFormedUTF16_member_json wellFormedUTF16_stringify_resize)
  then show ?thesis
    unfolding JSON_stringify_def
    by (intro wellFormedUTF16_object_json)
      (simp add: wellFormedUTF16_member_json wellFormedUTF16_QuoteJSONString)
qed

subsection \<open>The resized URL of a storage URL\<close>

lemma decodeRequest_encode:
  "decodeRequest (base64FromByteArray (TextEncoder_encode (JSON_stringify r))) = Some r"
  by (simp add: decodeRequest_def base64ToByteArray_base64FromByteArray
      TextDecoder_decode_TextEncoder_encode wellFormedUTF16_JSON_stringify
      JSON_parse_JSON_stringify)

lemma decodeSegments_map:
  "decodeSegments ps = Inr ds \<longleftrightarrow> map decodeURIComponent ps = map Inr ds"
proof (induction ps arbitrary: ds)
  case Nil
  then show ?case by auto
next
  case (Cons p ps)
  show ?case
  proof (cases "decodeURIComponent p")
    case (Inl e)
    then show ?thesis by (cases ds) auto
  next
    case (Inr d)
    show ?thesis
    proof (cases "decodeSegments ps")
      case (Inl e)
      then have "map decodeURIComponent ps \<noteq> map Inr ds'" for ds'
        using Cons.IH [of ds'] by simp
      then show ?thesis using Inl Inr by (cases ds) auto
    next
      case r: (Inr ds')
      then have "map decodeURIComponent ps = map Inr ds'" using Cons.IH by simp
      then show ?thesis using Inr r by (cases ds) (auto simp: inj_map_eq_map [OF inj_Inr])
    qed
  qed
qed

text \<open>
  Claim C1, amended: for every storage URL that splits into exactly two parts on the
  storage host followed by a slash, and whose path segments all percent-decode, and for
  every edit request, \<open>getResizedUrl\<close> returns the CDN host, a slash and a base64 text;
  base64-decoding that text, reading the bytes as UTF-8 and parsing the JSON gives exactly
  the bucket \<open>ntmg-media\<close>, the key made of the decoded segments joined with slashes, and
  the edit request. Each segment is decoded once: in the witness the double-encoded
  segment \<open>my%2520photos\<close> appears as \<open>my%20photos\<close> in the key.
\<close>

theorem getResizedUrl_storage_url:
  assumes "split originalImageUrl (s3Hostname @ js ''/'') = [pre, path]"
    and "map decodeURIComponent (split path (js ''/'')) = map Inr segments"
  shows "\<exists>b64. getResizedUrl originalImageUrl imageEditRequest
              = Inr (cloudfrontHostname @ js ''/'' @ b64)
           \<and> decodeRequest b64 =
               Some \<lparr>bucket = js ''ntmg-media'', key = join segments (js ''/''),
                     edits = imageEditRequest\<rparr>"
proof -
  have len: "length (split originalImageUrl (s3Hostname @ js ''/'')) = 2"
    by (simp add: assms(1))
  from split_two_parts [OF len]
  have url: "originalImageUrl = pre @ s3Hostname @ js ''/'' @ path"
    by (simp add: assms(1))
  then have inc: "includes_str originalImageUrl s3Hostname"
    unfolding includes_str_iff by blast
  have ne: "originalImageUrl \<noteq> []"
    using url by (simp add: s3Hostname_def js_def)
  have seg: "decodeSegments (split path (js ''/'')) = Inr segments"
    using assms(2) by (simp add: decodeSegments_map)
  have "getResizedUrl originalImageUrl imageEditRequest =
      Inr (cloudfrontHostname @ js ''/'' @
        base64FromByteArray (TextEncoder_encode (JSON_stringify
          \<lparr>bucket = s3BucketName, key = join segments (js ''/''), edits = imageEditRequest\<rparr>)))"
    using ne inc by (simp add: getResizedUrl_def Let_def assms(1) seg)
  moreover have "s3BucketName = js ''ntmg-media''" by (simp add: s3BucketName_def)
  ultimately show ?thesis using decodeRequest_encode by metis
qed

theorem getResizedUrl_storage_url_witness:
  "getResizedUrl (js ''https://ntmg-media.s3.us-west-1.amazonaws.com/my%2520photos/caf%C3%A9.png'') edit640
     = Inr (cloudfrontHostname @ js ''/'' @
         js ''eyJidWNrZXQiOiJudG1nLW1lZGlhIiwia2V5IjoibXklMjBwaG90b3MvY2Fmw6kucG5nIiwiZWRpdHMiOnsicmVzaXplIjp7IndpZHRoIjo2NDAsImZpdCI6ImNvdmVyIn19fQ=='')
   \<and> decodeRequest
         (js ''eyJidWNrZXQiOiJudG1nLW1lZGlhIiwia2V5IjoibXklMjBwaG90b3MvY2Fmw6kucG5nIiwiZWRpdHMiOnsicmVzaXplIjp7IndpZHRoIjo2NDAsImZpdCI6ImNvdmVyIn19fQ=='')
     = Some \<lparr>bucket = js ''ntmg-media'', key = js ''my%20photos/caf'' @ [0xE9] @ js ''.png'',
              edits = edit640\<rparr>"
proof -
  let ?url = "js ''https://ntmg-media.s3.us-west-1.amazonaws.com/my%2520photos/caf%C3%A9.png''"
  have parts: "split ?url (s3Hostname @ js ''/'') = [js ''https://'', js ''my%2520photos/caf%C3%A9.png'']"
    by (simp add: split_def js_def s3Hostname_def)
  have segs: "map decodeURIComponent (split (js ''my%2520photos/caf%C3%A9.png'') (js ''/''))
      = map Inr [js ''my%20photos'', js ''caf'' @ [0xE9] @ js ''.png'']"
    by (simp add: split_def js_def hexDigit_def leadingOnes_def isContinuation_def
        UTF16EncodeCodePoint_def)
  have k: "join [js ''my%20photos'', js ''caf'' @ [0xE9] @ js ''.png''] (js ''/'')
      = js ''my%20photos/caf'' @ [0xE9] @ js ''.png''"
    by (simp add: js_def)
  have val: "getResizedUrl ?url edit640
     = Inr (cloudfrontHostname @ js ''/'' @
         js ''eyJidWNrZXQiOiJudG1nLW1lZGlhIiwia2V5IjoibXklMjBwaG90b3MvY2Fmw6kucG5nIiwiZWRpdHMiOnsicmVzaXplIjp7IndpZHRoIjo2NDAsImZpdCI6ImNvdmVyIn19fQ=='')"
    by (simp add: getResizedUrl_def split_def js_def s3Hostname_def hexDigit_def leadingOnes_def
      isContinuation_def UTF16EncodeCodePoint_def
      edit640_def JSON_stringify_def object_json_def member_json_def stringify_edits_def
      stringify_resize_def QuoteJSONString_def quoteCodeUnit_def isLeadingSurrogate_def
      isTrailingSurrogate_def NumberToString_def decimalDigits.simps s3BucketName_def
      utf8Bytes_def utf8Octets_def base64Char_def base64Alphabet_def)
  from getResizedUrl_storage_url [OF parts segs, of edit640]
  obtain b64 where b: "getResizedUrl ?url edit640 = Inr (cloudfrontHostname @ js ''/'' @ b64)"
    "decodeRequest b64 = Some \<lparr>bucket = js ''ntmg-media'',
       key = join [js ''my%20photos'', js ''caf'' @ [0xE9] @ js ''.png''] (js ''/''),
       edits = edit640\<rparr>"
    by blast
  from b(1) val have "b64 = js ''eyJidWNrZXQiOiJudG1nLW1lZGlhIiwia2V5IjoibXklMjBwaG90b3MvY2Fmw6kucG5nIiwiZWRpdHMiOnsicmVzaXplIjp7IndpZHRoIjo2NDAsImZpdCI6ImNvdmVyIn19fQ==''"
    by simp
  with b(2) val show ?thesis by (simp only: k)
qed

text \<open>
  Claim C1 promises the CDN URL for every URL that splits into exactly two parts. A path
  segment that is not a valid percent-encoding, here a Latin-1 escape that is not UTF-8,
  makes \<open>decodeURIComponent\<close> throw, and nothing is returned.
\<close>

theorem getResizedUrl_storage_url_counterexample:
  "js ''https://ntmg-media.s3.us-west-1.amazonaws.com/caf%E9.png'' \<noteq> []
   \<and> split (js ''https://ntmg-media.s3.us-west-1.amazonaws.com/caf%E9.png'') (s3Hostname @ js ''/'')
       = [js ''https://'', js ''caf%E9.png'']
   \<and> getResizedUrl (js ''https://ntmg-media.s3.us-west-1.amazonaws.com/caf%E9.png'') edit640
       = Inl URIError"
proof -
  have d: "decodeURIComponent (js ''caf%E9.png'') = Inl URIError"
    by code_simp
  have p: "split (js ''https://ntmg-media.s3.us-west-1.amazonaws.com/caf%E9.png'') (s3Hostname @ js ''/'')
       = [js ''https://'', js ''caf%E9.png'']"
    by (simp add: split_def js_def s3Hostname_def)
  have s: "split (js ''caf%E9.png'') (js ''/'') = [js ''caf%E9.png'']"
    by (simp add: split_def js_def)
  have i: "includes_str (js ''https://ntmg-media.s3.us-west-1.amazonaws.com/caf%E9.png'') s3Hostname"
    by (simp add: js_def s3Hostname_def)
  have n: "js ''https://ntmg-media.s3.us-west-1.amazonaws.com/caf%E9.png'' \<noteq> []"
    by (simp add: js_def)
  show ?thesis
    using n i by (simp add: getResizedUrl_def Let_def p s d)
qed

subsection \<open>Rewriting does not look at the host\<close>

lemma getResizedUrl_two_parts:
  assumes "split originalImageUrl (s3Hostname @ js ''/'') = [pre, path]"
    and "map decodeURIComponent (split path (js ''/'')) = map Inr segments"
  shows "getResizedUrl originalImageUrl imageEditRequest =
      Inr (cloudfrontHostname @ js ''/'' @
        base64FromByteArray (TextEncoder_encode (JSON_stringify
          \<lparr>bucket = s3BucketName, key = join segments (js ''/''),
           edits = imageEditRequest\<rparr>)))"
proof -
  have "length (split originalImageUrl (s3Hostname @ js ''/'')) = 2"
    by (simp add: assms(1))
  from split_two_parts [OF this]
  have url: "originalImageUrl = pre @ s3Hostname @ js ''/'' @ path"
    by (simp add: assms(1))
  then have inc: "includes_str originalImageUrl s3Hostname"
    unfolding includes_str_iff by blast
  have ne: "originalImageUrl \<noteq> []"
    using url by (simp add: s3Hostname_def js_def)
  have seg: "decodeSegments (split path (js ''/'')) = Inr segments"
    using assms(2) by (simp add: decodeSegments_map)
  show ?thesis
    using ne inc by (simp add: getResizedUrl_def Let_def assms(1) seg)
qed

text \<open>
  Claim C4, amended: whether a URL is rewritten depends only on the storage host followed
  by a slash standing in it as a substring, wherever it stands; the host component is
  never looked at. Every URL without that substring is returned unchanged. Every URL that
  splits into exactly two parts on it, and whose path segments all percent-decode, is
  rewritten to the CDN URL of its key, whatever its host is: in the witness the host is
  \<open>example.com\<close>.
\<close>

theorem getResizedUrl_rewrites_only_storage_substring:
  "((\<nexists>pre path. originalImageUrl = pre @ s3Hostname @ js ''/'' @ path) \<longrightarrow>
      getResizedUrl originalImageUrl imageEditRequest = Inr originalImageUrl)
   \<and> (split originalImageUrl (s3Hostname @ js ''/'') = [before, path] \<longrightarrow>
      map decodeURIComponent (split path (js ''/'')) = map Inr segments \<longrightarrow>
      (\<exists>b64. getResizedUrl originalImageUrl imageEditRequest
                = Inr (cloudfrontHostname @ js ''/'' @ b64)
         \<and> decodeRequest b64 =
             Some \<lparr>bucket = js ''ntmg-media'', key = join segments (js ''/''),
                   edits = imageEditRequest\<rparr>))"
proof (intro conjI impI)
  assume "\<nexists>pre path. originalImageUrl = pre @ s3Hostname @ js ''/'' @ path"
  then show "getResizedUrl originalImageUrl imageEditRequest = Inr originalImageUrl"
    by (rule getResizedUrl_without_storage_substring)
next
  assume parts: "split originalImageUrl (s3Hostname @ js ''/'') = [before, path]"
    and segs: "map decodeURIComponent (split path (js ''/'')) = map Inr segments"
  have "decodeRequest (base64FromByteArray (TextEncoder_encode (JSON_stringify
          \<lparr>bucket = s3BucketName, key = join segments (js ''/''),
           edits = imageEditRequest\<rparr>))) =
      Some \<lparr>bucket = js ''ntmg-media'', key = join segments (js ''/''),
             edits = imageEditRequest\<rparr>"
    by (simp add: decodeRequest_encode s3BucketName_def)
  with getResizedUrl_two_parts [OF parts segs, of imageEditRequest]
  show "\<exists>b64. getResizedUrl originalImageUrl imageEditRequest
                = Inr (cloudfrontHostname @ js ''/'' @ b64)
         \<and> decodeRequest b64 =
             Some \<lparr>bucket = js ''ntmg-media'', key = join segments (js ''/''),
                   edits = imageEditRequest\<rparr>"
    by blast
qed

theorem getResizedUrl_rewrites_only_storage_substring_witness:
  "getResizedUrl (js ''https://example.com/ntmg-media.s3.us-west-1.amazonaws.com.png'') edit640
     = Inr (js ''https://example.com/ntmg-media.s3.us-west-1.amazonaws.com.png'')
   \<and> spec_url_host (js ''https://example.com/ntmg-media.s3.us-west-1.amazonaws.com/my%20photos/a.png'')
     = js ''example.com''
   \<and> split (js ''https://example.com/ntmg-media.s3.us-west-1.amazonaws.com/my%20photos/a.png'')
       (s3Hostname @ js ''/'') = [js ''https://example.com/'', js ''my%20photos/a.png'']
   \<and> (\<exists>b64. getResizedUrl
         (js ''https://example.com/ntmg-media.s3.us-west-1.amazonaws.com/my%20photos/a.png'') edit640
           = Inr (cloudfrontHostname @ js ''/'' @ b64)
         \<and> decodeRequest b64 =
             Some \<lparr>bucket = js ''ntmg-media'', key = js ''my photos/a.png'', edits = edit640\<rparr>)"
proof -
  let ?plain = "js ''https://example.com/ntmg-media.s3.us-west-1.amazonaws.com.png''"
  let ?url = "js ''https://example.com/ntmg-media.s3.us-west-1.amazonaws.com/my%20photos/a.png''"
  have "\<not> includes_str ?plain (s3Hostname @ js ''/'')"
    by (simp add: js_def s3Hostname_def)
  then have none: "\<nexists>pre path. ?plain = pre @ s3Hostname @ js ''/'' @ path"
    by (simp add: includes_str_iff)
  have host: "spec_url_host ?url = js ''example.com''"
    by (simp add: spec_url_host_def split_def js_def)
  have parts: "split ?url (s3Hostname @ js ''/'')
      = [js ''https://example.com/'', js ''my%20photos/a.png'']"
    by (simp add: split_def js_def s3Hostname_def)
  have segs: "map decodeURIComponent (split (js ''my%20photos/a.png'') (js ''/''))
      = map Inr [js ''my photos'', js ''a.png'']"
    by (simp add: split_def js_def hexDigit_def leadingOnes_def)
  have k: "join [js ''my photos'', js ''a.png''] (js ''/'') = js ''my photos/a.png''"
    by (simp add: js_def)
  show ?thesis
    using getResizedUrl_rewrites_only_storage_substring
        [of ?plain edit640 "[]" "[]" "[]"]
      getResizedUrl_rewrites_only_storage_substring
        [of ?url edit640 "js ''https://example.com/''" "js ''my%20photos/a.png''"
          "[js ''my photos'', js ''a.png'']"]
      none host parts segs
    by (simp only: k) blast
qed

end
